theory Spec2Isabelle
  imports Complex_Main "HOL-Library.Sublist"
begin

section \<open>The persistent queue of src/queue/persistantQueue.ts\<close>

text \<open>
  The queue object keeps a bounded in-memory window of jobs (\<open>this.queue\<close>), a cached
  job count (\<open>this.length\<close>) and three flags, and stores every job in an SQLite table.
  The embedding makes the object a record, the database a record of its tables, and
  every method a function from the object to an outcome, the notifications it emits and
  the updated object.

  Conventions of the embedding.
  \<^item> Every public operation runs to quiescence before the next one begins: its storage
    callbacks, its promise reactions and its \<open>setImmediate\<close> callbacks have all run.
    Operations whose asynchronous parts overlap are not represented.
  \<^item> The storage is healthy: the \<open>err\<close> argument of a sqlite3 callback is
    \<open>null\<close>, unless the statement itself is one SQLite refuses (a \<open>LIMIT\<close> that is
    not an integer). What the code does on a \<open>null\<close> database handle is represented.
  \<^item> A payload is a JSON value, represented by its canonical serialisation. On that
    representation \<open>JSON.stringify\<close> and \<open>JSON.parse\<close> are the identity, and the
    \<open>catch\<close> branch of the parse in \<open>hydrateQueue\<close> is never taken.
  \<^item> A JavaScript number is a rational, \<open>NaN\<close> or an infinity; the rounding of
    doubles is not represented.
  \<^item> \<open>console\<close> output (and so the \<open>debug\<close> flag's effect) is not represented.
\<close>

subsection \<open>Values, errors and outcomes\<close>

text \<open>
  The \<open>Error\<close> objects the code throws, the strings it rejects promises with, and the
  \<open>TypeError\<close> the runtime raises when a property of \<open>null\<close> or \<open>undefined\<close>
  is read.
\<close>

datatype error =
    NoFilename             \<comment> \<open>Error('No filename parameter provided')\<close>
  | InvalidBatchSize       \<comment> \<open>Error('Invalid batchSize parameter.  Must be a NUMBER > 0')\<close>
  | OpenBeforeStart        \<comment> \<open>Error('Open queue database before starting queue')\<close>
  | OpenBeforeIsEmpty      \<comment> \<open>Error('Call open() method before calling isEmpty()')\<close>
  | OpenBeforeGetSqlite3   \<comment> \<open>Error('Call open() method before calling getSqlite3()')\<close>
  | DbNotOpen              \<comment> \<open>the string 'Open queue database before starting queue'\<close>
  | DbNotOpenCount         \<comment> \<open>the string 'Open queue database before counting jobs'\<close>
  | NotRemoved nat         \<comment> \<open>the string 'Job id ' + id + ' was not removed from queue'\<close>
  | TypeError              \<comment> \<open>raised by the runtime\<close>

text \<open>The values of type number: the finite ones, \<open>NaN\<close> and the two infinities.\<close>

datatype js_number = Finite rat | NaN | Infinity | NegInfinity

datatype js_value =
    JUndefined
  | JNull
  | JBool bool
  | JNumber js_number
  | JString string
  | JError error

text \<open>
  How a call ends. \<open>Returned\<close> and \<open>Threw\<close> are the two ways a synchronous call
  ends; \<open>Fulfilled\<close>, \<open>Rejected\<close> and \<open>Pending\<close> are the states of the promise a
  call returned, once the operation is quiescent; \<open>Exited\<close> is the end of the process
  (\<open>process.exit(1)\<close>, or an exception nobody catches inside a callback).
\<close>

datatype 'a outcome =
    Returned 'a
  | Threw error
  | Fulfilled 'a
  | Rejected js_value
  | Pending
  | Exited

text \<open>
  A promise is settled once: later calls of its resolving functions are ignored.
  \<open>None\<close> is the promise that is not settled yet.
\<close>

definition settle :: "'a outcome option \<Rightarrow> 'a outcome \<Rightarrow> 'a outcome option" where
  "settle p x = (case p of None \<Rightarrow> Some x | Some y \<Rightarrow> Some y)"

definition settled :: "'a outcome option \<Rightarrow> 'a outcome" where
  "settled p = (case p of None \<Rightarrow> Pending | Some y \<Rightarrow> y)"

definition typeof :: "js_value \<Rightarrow> string" where
  "typeof v = (case v of
       JUndefined \<Rightarrow> ''undefined''
     | JNull \<Rightarrow> ''object''
     | JBool _ \<Rightarrow> ''boolean''
     | JNumber _ \<Rightarrow> ''number''
     | JString _ \<Rightarrow> ''string''
     | JError _ \<Rightarrow> ''object'')"

text \<open>
  \<open>x < c\<close> for a number \<open>x\<close> and a finite \<open>c\<close>: every comparison with \<open>NaN\<close>
  is false.
\<close>

definition js_less_than :: "js_number \<Rightarrow> rat \<Rightarrow> bool" where
  "js_less_than x c = (case x of
       Finite r \<Rightarrow> r < c
     | NaN \<Rightarrow> False
     | Infinity \<Rightarrow> False
     | NegInfinity \<Rightarrow> True)"

text \<open>An id, which is a natural number, as a value.\<close>

definition js_of_nat :: "nat \<Rightarrow> js_value" where
  "js_of_nat i = JNumber (Finite (of_nat i))"

text \<open>\<open>x++\<close> and \<open>x--\<close> on a field that holds \<open>null\<close> or a number: \<open>null\<close> counts as 0.\<close>

definition js_incr :: "int option \<Rightarrow> int option" where
  "js_incr n = (case n of None \<Rightarrow> Some 1 | Some k \<Rightarrow> Some (k + 1))"

definition js_decr :: "int option \<Rightarrow> int option" where
  "js_decr n = (case n of None \<Rightarrow> Some (- 1) | Some k \<Rightarrow> Some (k - 1))"

text \<open>\<open>xs[0]\<close>, which is \<open>undefined\<close> (here \<open>None\<close>) on an empty array.\<close>

definition head :: "'a list \<Rightarrow> 'a option" where
  "head xs = (case xs of [] \<Rightarrow> None | x # _ \<Rightarrow> Some x)"

text \<open>
  \<open>data === []\<close>: strict equality on arrays compares identity, and the array literal
  is a new object, so the comparison is false for every \<open>data\<close>.
\<close>

definition identical_to_new_array :: "'a list \<Rightarrow> bool" where
  "identical_to_new_array data = False"

subsection \<open>Payloads\<close>

type_synonym payload = string

definition JSON_stringify :: "payload \<Rightarrow> string" where
  "JSON_stringify p = p"

definition JSON_parse :: "string \<Rightarrow> payload" where
  "JSON_parse s = s"

subsection \<open>The storage\<close>

text \<open>
  The tables \<open>open\<close> creates: \<open>queue (id INTEGER PRIMARY KEY ASC AUTOINCREMENT, job TEXT)\<close>
  as the list of its rows, the largest id \<open>AUTOINCREMENT\<close> has recorded (\<open>seq\<close>), and
  the single row of \<open>queue_count\<close>, which the triggers \<open>queue_insert\<close> and
  \<open>queue_delete\<close> keep up to date. \<open>vacuums\<close> counts the \<open>VACUUM\<close> statements run.
\<close>

type_synonym row = "nat \<times> string"

record database =
  rows :: "row list"
  seq :: nat
  counter :: int
  vacuums :: nat

text \<open>
  A store this schema has written: ids are unique, the table is kept in id order, and no
  id exceeds the recorded sequence value.
\<close>

definition wf_db :: "database \<Rightarrow> bool" where
  "wf_db d \<longleftrightarrow> sorted_wrt (<) (map fst (rows d)) \<and> list_all (\<lambda>r. fst r \<le> seq d) (rows d)"

definition empty_db :: database where
  "empty_db = \<lparr>rows = [], seq = 0, counter = 0, vacuums = 0\<rparr>"

text \<open>The schema script of \<open>open\<close>: on existing tables its only effect is the recount.\<close>

definition db_schema :: "database \<Rightarrow> database" where
  "db_schema d = d\<lparr>counter := int (length (rows d))\<rparr>"

text \<open>\<open>INSERT INTO queue (job) VALUES (?)\<close>, with the insert trigger.\<close>

definition db_insert :: "string \<Rightarrow> database \<Rightarrow> database" where
  "db_insert text d =
     d\<lparr>rows := rows d @ [(Suc (seq d), text)], seq := Suc (seq d), counter := counter d + 1\<rparr>"

text \<open>
  \<open>DELETE FROM queue WHERE id = ?\<close>, with the delete trigger (once for each row
  deleted); the first component is the number of rows affected (\<open>this.changes\<close>).
\<close>

definition db_delete :: "nat \<Rightarrow> database \<Rightarrow> nat \<times> database" where
  "db_delete i d =
     (let gone = filter (\<lambda>r. fst r = i) (rows d)
      in (length gone,
          d\<lparr>rows := filter (\<lambda>r. fst r \<noteq> i) (rows d),
            counter := counter d - int (length gone)\<rparr>))"

text \<open>
  What SQLite reads where a number is spliced into the text of a statement, as in
  \<open>'... LIMIT ' + q.batchSize\<close>. JavaScript prints an integral value as its digits
  (up to 21 of them), and SQLite takes digits as an integer when they fit 64 bits. A
  fraction, a value printed with an exponent, \<open>NaN\<close> and \<open>Infinity\<close> are not
  integers to SQLite, which refuses them as a \<open>LIMIT\<close> (\<open>None\<close>).
\<close>

definition sql_integer :: "js_number \<Rightarrow> int option" where
  "sql_integer x = (case x of
       Finite r \<Rightarrow>
         if of_int \<lfloor>r\<rfloor> = r \<and> - (2 ^ 63) \<le> r \<and> r < 2 ^ 63 then Some \<lfloor>r\<rfloor> else None
     | _ \<Rightarrow> None)"

text \<open>
  \<open>SELECT * FROM queue ORDER BY id ASC LIMIT n\<close>; a negative limit is no limit.
\<close>

definition db_select_limit :: "int \<Rightarrow> database \<Rightarrow> row list" where
  "db_select_limit n d =
     (let ordered = sort_key fst (rows d)
      in if n < 0 then ordered else take (nat n) ordered)"

text \<open>\<open>SELECT id FROM queue where job = ? ORDER BY id ASC\<close>, already mapped to the ids.\<close>

definition db_select_ids_by_job :: "string \<Rightarrow> database \<Rightarrow> nat list" where
  "db_select_ids_by_job text d =
     map fst (filter (\<lambda>r. snd r = text) (sort_key fst (rows d)))"

text \<open>\<open>SELECT id FROM queue where id = ?\<close> through \<open>db.get\<close>: the first row, if any.\<close>

definition db_select_by_id :: "nat \<Rightarrow> database \<Rightarrow> row option" where
  "db_select_by_id i d = find (\<lambda>r. fst r = i) (rows d)"

definition db_vacuum :: "database \<Rightarrow> database" where
  "db_vacuum d = d\<lparr>vacuums := Suc (vacuums d)\<rparr>"

subsection \<open>The queue object\<close>

type_synonym job = "nat \<times> payload"

text \<open>
  The fields the constructor sets. \<open>empty\<close> is \<open>undefined\<close> (\<open>None\<close>) until the queue
  is opened, \<open>length\<close> is \<open>null\<close> (\<open>None\<close>) until it is counted, and \<open>db\<close> is
  \<open>null\<close> (\<open>None\<close>) or the open database with its contents.
\<close>

record pq =
  debug :: bool
  empty_q :: "bool option"
  dbPath :: js_value
  batchSize :: js_number
  queue :: "job list"
  length_q :: "int option"
  db :: "database option"
  opened :: bool
  run :: bool

text \<open>The notifications observers can subscribe to.\<close>

datatype event =
    EvNext "job option"         \<comment> \<open>emit('next', this.queue[0])\<close>
  | EvEmpty                     \<comment> \<open>emit('empty')\<close>
  | EvAdd js_value payload      \<comment> \<open>emit('add', { id: ..., job: job })\<close>
  | EvDelete "nat option"       \<comment> \<open>emit('delete', { id: id })\<close>
  | EvOpen                      \<comment> \<open>emit('open', this.db)\<close>
  | EvClose                     \<comment> \<open>emit('close')\<close>

text \<open>The object the constructor leaves behind when it does not throw.\<close>

definition initial_pq :: "js_value \<Rightarrow> js_number \<Rightarrow> pq" where
  "initial_pq path n =
     \<lparr>debug = False, empty_q = None, dbPath = path, batchSize = n, queue = [],
      length_q = None, db = None, opened = False, run = False\<rparr>"

text \<open>
  \<open>function PersistentQueue(filename, batchSize)\<close>. The second disjunct of the batch
  size test is evaluated only for a number.
\<close>

definition PersistentQueue :: "js_value \<Rightarrow> js_value \<Rightarrow> pq outcome" where
  "PersistentQueue filename batchSize0 =
     (if filename = JUndefined then Threw NoFilename
      else
        let path = (if filename = JString [] then JString '':memory:'' else filename);
            bs = (if batchSize0 = JUndefined then JNumber (Finite 10) else batchSize0)
        in if typeof bs \<noteq> ''number'' \<or> (case bs of JNumber x \<Rightarrow> js_less_than x 1 | _ \<Rightarrow> False)
           then Threw InvalidBatchSize
           else Returned (initial_pq path (case bs of JNumber x \<Rightarrow> x | _ \<Rightarrow> NaN)))"

subsection \<open>Internal functions\<close>

text \<open>
  \<open>countQueue\<close>. On a \<open>null\<close> handle the promise is rejected and the \<open>TypeError\<close> of
  \<open>q.db.get\<close> that follows is swallowed by the settled promise. The value passed to
  \<open>resolve\<close> is \<open>this.length\<close>, where \<open>this\<close> is that of the plain function
  \<open>countQueue\<close> and not the queue; no caller reads the value. The embedding takes that
  read to give \<open>undefined\<close>, as it does when \<open>this\<close> is the global object. Where
  the file is run in strict mode, \<open>this\<close> is \<open>undefined\<close> there and the read throws
  inside the callback, after the count has been stored.
\<close>

definition countQueue :: "pq \<Rightarrow> js_value outcome \<times> pq" where
  "countQueue q =
     (case db q of
        None \<Rightarrow> (Rejected (JError DbNotOpenCount), q)
      | Some d \<Rightarrow> (Fulfilled JUndefined, q\<lparr>length_q := Some (counter d)\<rparr>))"

text \<open>\<open>searchQueue\<close>: the ids of the stored jobs whose text is the serialised payload.\<close>

definition searchQueue :: "pq \<Rightarrow> payload \<Rightarrow> nat list outcome" where
  "searchQueue q job =
     (case db q of
        None \<Rightarrow> Rejected (JError DbNotOpen)
      | Some d \<Rightarrow> Fulfilled (db_select_ids_by_job (JSON_stringify job) d))"

text \<open>
  \<open>hydrateQueue\<close>: the window becomes the first \<open>q.batchSize\<close> stored jobs in id
  order. The parameter \<open>size\<close> (here \<open>size0\<close>) is not used by the code. When
  SQLite refuses the statement the callback gets an error and no rows: the promise is
  rejected, and \<open>jobs.map\<close> of the \<open>undefined\<close> rows then throws inside the
  callback, where nothing catches it.
\<close>

definition hydrateQueue :: "pq \<Rightarrow> js_number \<Rightarrow> row list outcome \<times> pq" where
  "hydrateQueue q size0 =
     (case db q of
        None \<Rightarrow> (Rejected (JError DbNotOpen), q)
      | Some d \<Rightarrow>
          (case sql_integer (batchSize q) of
             None \<Rightarrow> (Exited, q)
           | Some n \<Rightarrow>
               (let jobs = db_select_limit n d
                in (Fulfilled jobs, q\<lparr>queue := map (\<lambda>r. (fst r, JSON_parse (snd r))) jobs\<rparr>))))"

text \<open>\<open>q.queue.splice(i, 1)\<close> at the first \<open>i\<close> whose job has the id, then \<open>break\<close>.\<close>

fun splice_id :: "nat \<Rightarrow> job list \<Rightarrow> job list" where
  "splice_id i [] = []"
| "splice_id i (j # js) = (if fst j = i then js else j # splice_id i js)"

text \<open>
  \<open>removeJob\<close>. With the id omitted the window head is shifted off, and reading
  \<open>.id\<close> of the \<open>undefined\<close> an empty window gives throws before any promise exists.
  Otherwise the window is changed first and the promise tells whether a row was deleted.
\<close>

definition removeJob_db :: "pq \<Rightarrow> nat \<Rightarrow> nat outcome \<times> pq" where
  "removeJob_db q i =
     (case db q of
        None \<Rightarrow> (Rejected (JError DbNotOpen), q)
      | Some d \<Rightarrow>
          (case db_delete i d of
             (changes, d') \<Rightarrow>
               if changes \<noteq> 0 then (Fulfilled i, q\<lparr>db := Some d'\<rparr>)
               else (Rejected (JError (NotRemoved i)), q\<lparr>db := Some d'\<rparr>)))"

definition removeJob :: "pq \<Rightarrow> nat option \<Rightarrow> nat outcome \<times> pq" where
  "removeJob q idarg =
     (case idarg of
        None \<Rightarrow>
          (case queue q of
             [] \<Rightarrow> (Threw TypeError, q)
           | j # js \<Rightarrow> removeJob_db (q\<lparr>queue := js\<rparr>) (fst j))
      | Some i \<Rightarrow> removeJob_db (q\<lparr>queue := splice_id i (queue q)\<rparr>) i)"

subsection \<open>Event handlers\<close>

text \<open>The \<open>'empty'\<close> handler.\<close>

definition on_empty :: "pq \<Rightarrow> unit outcome \<times> pq" where
  "on_empty q =
     (let q1 = q\<lparr>empty_q := Some True\<rparr>
      in case db q1 of
           None \<Rightarrow> (Threw TypeError, q1)
         | Some d \<Rightarrow> (Returned (), q1\<lparr>db := Some (db_vacuum d)\<rparr>))"

text \<open>
  The \<open>'trigger_next'\<close> handler. \<open>this.empty\<close> is truthy only when it is \<open>true\<close>, and
  \<open>this.length !== 0\<close> holds for \<open>null\<close>. A rejected hydration ends the process.
\<close>

definition trigger_next :: "pq \<Rightarrow> unit outcome \<times> event list \<times> pq" where
  "trigger_next q =
     (if \<not> run q \<or> empty_q q = Some True then (Returned (), [], q)
      else if queue q = [] \<and> length_q q \<noteq> Some 0 then
        (case hydrateQueue q (batchSize q) of
           (Fulfilled jobs, q1) \<Rightarrow> (Returned (), [EvNext (head (queue q1))], q1)
         | (other, q1) \<Rightarrow> (Exited, [], q1))
      else if queue q \<noteq> [] then (Returned (), [EvNext (head (queue q))], q)
      else (case on_empty q of (r, q1) \<Rightarrow> (r, [EvEmpty], q1)))"

text \<open>The \<open>'add'\<close> handler.\<close>

definition on_add :: "pq \<Rightarrow> unit outcome \<times> event list \<times> pq" where
  "on_add q =
     (if empty_q q = Some True then
        (let q1 = q\<lparr>empty_q := Some False\<rparr>
         in if run q1 then trigger_next q1 else (Returned (), [], q1))
      else (Returned (), [], q))"

text \<open>The \<open>'close'\<close> handler.\<close>

definition on_close :: "pq \<Rightarrow> pq" where
  "on_close q = q\<lparr>opened := False, db := None, empty_q := None, run := False, queue := []\<rparr>"

subsection \<open>Public operations\<close>

text \<open>
  \<open>open\<close>, given what the database at \<open>dbPath\<close> holds: schema and recount,
  \<open>countQueue\<close>, \<open>hydrateQueue\<close>, then \<open>empty\<close> from the window and the \<open>'open'\<close>
  notification, whose handler sets \<open>opened\<close>. A hydration that SQLite refuses ends
  the process here as well.
\<close>

definition open_q :: "database \<Rightarrow> pq \<Rightarrow> row list outcome \<times> event list \<times> pq" where
  "open_q store q =
     (let q1 = q\<lparr>db := Some (db_schema store)\<rparr>
      in case countQueue q1 of
           (Fulfilled c, q2) \<Rightarrow>
             (case hydrateQueue q2 (batchSize q2) of
                (Fulfilled jobs, q3) \<Rightarrow>
                  (Fulfilled jobs, [EvOpen],
                   q3\<lparr>empty_q := Some (queue q3 = []), opened := True\<rparr>)
              | (Exited, q3) \<Rightarrow> (Exited, [], q3)
              | (other, q3) \<Rightarrow> (Rejected (JError DbNotOpen), [], q3))
         | (other, q2) \<Rightarrow> (Rejected (JError DbNotOpenCount), [], q2))"

text \<open>\<open>close\<close>: \<open>this.db.close\<close> on a \<open>null\<close> handle throws inside the promise executor.\<close>

definition close_q :: "pq \<Rightarrow> js_value outcome \<times> event list \<times> pq" where
  "close_q q =
     (case db q of
        None \<Rightarrow> (Rejected (JError TypeError), [], q)
      | Some d \<Rightarrow> (Fulfilled JUndefined, [EvClose], on_close q))"

definition getLength :: "pq \<Rightarrow> int option" where
  "getLength q = length_q q"

text \<open>\<open>start\<close> emits \<open>'start'\<close>, whose handler throws on a \<open>null\<close> handle.\<close>

definition start_q :: "pq \<Rightarrow> unit outcome \<times> event list \<times> pq" where
  "start_q q =
     (case db q of
        None \<Rightarrow> (Threw OpenBeforeStart, [], q)
      | Some d \<Rightarrow>
          if \<not> run q then trigger_next (q\<lparr>run := True\<rparr>) else (Returned (), [], q))"

definition stop_q :: "pq \<Rightarrow> pq" where
  "stop_q q = q\<lparr>run := False\<rparr>"

definition abort :: "pq \<Rightarrow> pq" where
  "abort q = stop_q q"

text \<open>
  \<open>done\<close>: the call itself returns \<open>undefined\<close> unless \<open>removeJob\<close> throws. A rejected
  removal, and anything thrown while the trigger runs, reaches the \<open>catch\<close> that ends
  the process.
\<close>

definition done_q :: "pq \<Rightarrow> nat option \<Rightarrow> unit outcome \<times> event list \<times> pq" where
  "done_q q idarg =
     (case removeJob q idarg of
        (Threw e, q1) \<Rightarrow> (Threw e, [], q1)
      | (Fulfilled i, q1) \<Rightarrow>
          (case trigger_next (q1\<lparr>length_q := js_decr (length_q q1)\<rparr>) of
             (Returned u, evs, q2) \<Rightarrow> (Returned (), evs, q2)
           | (other, evs, q2) \<Rightarrow> (Exited, evs, q2))
      | (other, q1) \<Rightarrow> (Exited, [], q1))"

text \<open>
  \<open>add\<close>. The callback of \<open>db.run\<close> is an arrow function, so its \<open>this\<close> is the queue
  object: \<open>this.lastID\<close> and \<open>this.id\<close> read properties the queue never has, and both
  are \<open>undefined\<close>. An exception of the \<open>'add'\<close> handler would escape the callback.
\<close>

definition add_q :: "pq \<Rightarrow> payload \<Rightarrow> js_value outcome \<times> event list \<times> pq" where
  "add_q q job =
     (case db q of
        None \<Rightarrow> (Rejected (JError TypeError), [], q)
      | Some d \<Rightarrow>
          (let q1 = q\<lparr>db := Some (db_insert (JSON_stringify job) d)\<rparr>;
               q2 = q1\<lparr>length_q := js_incr (length_q q1)\<rparr>
           in case on_add q2 of
                (Returned u, evs, q3) \<Rightarrow> (Fulfilled JUndefined, EvAdd JUndefined job # evs, q3)
              | (other, evs, q3) \<Rightarrow> (Exited, EvAdd JUndefined job # evs, q3)))"

definition setDebug :: "pq \<Rightarrow> bool \<Rightarrow> pq" where
  "setDebug q b = q\<lparr>debug := b\<rparr>"

definition isEmpty :: "pq \<Rightarrow> bool outcome" where
  "isEmpty q = (case empty_q q of None \<Rightarrow> Threw OpenBeforeIsEmpty | Some b \<Rightarrow> Returned b)"

definition isStarted :: "pq \<Rightarrow> bool" where
  "isStarted q = run q"

definition isOpen :: "pq \<Rightarrow> bool" where
  "isOpen q = opened q"

definition getSqlite3 :: "pq \<Rightarrow> database outcome" where
  "getSqlite3 q = (case db q of None \<Rightarrow> Threw OpenBeforeGetSqlite3 | Some d \<Rightarrow> Returned d)"

text \<open>
  \<open>has\<close>. The executor is written \<open>(reject, resolve) => ...\<close>: its first parameter,
  named \<open>reject\<close>, is the function that fulfils the promise and its second, named
  \<open>resolve\<close>, is the one that rejects it. So \<open>resolve(true)\<close> in the window loop and
  \<open>resolve(row !== undefined)\<close> in the callback reject the promise with the boolean.
  The loop does not stop at a match; the database is asked in any case.
\<close>

definition has_q :: "pq \<Rightarrow> nat \<Rightarrow> js_value outcome" where
  "has_q q i =
     (let p1 = (if list_ex (\<lambda>j. fst j = i) (queue q)
                then settle None (Rejected (JBool True)) else None);
          p2 = (case db q of
                  None \<Rightarrow> settle p1 (Rejected (JError TypeError))
                | Some d \<Rightarrow> settle p1 (Rejected (JBool (db_select_by_id i d \<noteq> None))))
      in settled p2)"

definition getJobIds :: "pq \<Rightarrow> payload \<Rightarrow> nat list outcome" where
  "getJobIds q job = searchQueue q job"

text \<open>
  \<open>getFirstJobId\<close>: the window first, by the serialisation of each parsed job, then
  the storage. \<open>data[0]\<close> of an empty result is \<open>undefined\<close>. A rejected search has
  no handler, and the promise stays pending.
\<close>

definition getFirstJobId :: "pq \<Rightarrow> payload \<Rightarrow> js_value outcome" where
  "getFirstJobId q job =
     (let jobstr = JSON_stringify job
      in case find (\<lambda>j. JSON_stringify (snd j) = jobstr) (queue q) of
           Some j \<Rightarrow> Fulfilled (js_of_nat (fst j))
         | None \<Rightarrow>
             (case searchQueue q job of
                Fulfilled data \<Rightarrow>
                  if identical_to_new_array data then Fulfilled JNull
                  else Fulfilled (case head data of None \<Rightarrow> JUndefined
                                  | Some i \<Rightarrow> js_of_nat i)
              | other \<Rightarrow> Pending))"

text \<open>
  \<open>delete\<close>. \<open>removeJob\<close> is called inside the promise executor, so what it throws
  rejects the promise. The notification and the resolved value carry the argument as
  given, \<open>undefined\<close> when it was omitted.
\<close>

definition js_of_id :: "nat option \<Rightarrow> js_value" where
  "js_of_id idarg = (case idarg of None \<Rightarrow> JUndefined | Some i \<Rightarrow> js_of_nat i)"

definition delete_q :: "pq \<Rightarrow> nat option \<Rightarrow> js_value outcome \<times> event list \<times> pq" where
  "delete_q q idarg =
     (case removeJob q idarg of
        (Threw e, q1) \<Rightarrow> (Rejected (JError e), [], q1)
      | (Fulfilled i, q1) \<Rightarrow>
          (Fulfilled (js_of_id idarg), [EvDelete idarg],
           q1\<lparr>length_q := js_decr (length_q q1)\<rparr>)
      | (Rejected r, q1) \<Rightarrow> (Rejected r, [], q1)
      | (other, q1) \<Rightarrow> (Pending, [], q1))"

subsection \<open>Sequences of operations\<close>

datatype op = Add payload | Done "nat option" | Delete "nat option" | Start | Stop

text \<open>How an operation ended, without the value it produced.\<close>

datatype status = Succeeded | Failed | Died

definition status_of :: "'a outcome \<Rightarrow> status" where
  "status_of r = (case r of
       Returned _ \<Rightarrow> Succeeded
     | Fulfilled _ \<Rightarrow> Succeeded
     | Exited \<Rightarrow> Died
     | _ \<Rightarrow> Failed)"

definition apply_op :: "op \<Rightarrow> pq \<Rightarrow> status \<times> event list \<times> pq" where
  "apply_op x q = (case x of
       Add job \<Rightarrow> (case add_q q job of (r, evs, q1) \<Rightarrow> (status_of r, evs, q1))
     | Done idarg \<Rightarrow> (case done_q q idarg of (r, evs, q1) \<Rightarrow> (status_of r, evs, q1))
     | Delete idarg \<Rightarrow> (case delete_q q idarg of (r, evs, q1) \<Rightarrow> (status_of r, evs, q1))
     | Start \<Rightarrow> (case start_q q of (r, evs, q1) \<Rightarrow> (status_of r, evs, q1))
     | Stop \<Rightarrow> (Succeeded, [], stop_q q))"

text \<open>
  The operations of a list in turn, each on the object the one before left; nothing runs
  after the process has ended. The result has the status of every operation that ran,
  all notifications in the order of their emission, and the final object.
\<close>

fun run_ops :: "op list \<Rightarrow> pq \<Rightarrow> status list \<times> event list \<times> pq" where
  "run_ops [] q = ([], [], q)"
| "run_ops (x # xs) q =
     (case apply_op x q of
        (s, evs, q1) \<Rightarrow>
          if s = Died then ([s], evs, q1)
          else (case run_ops xs q1 of (ss, evs', q2) \<Rightarrow> (s # ss, evs @ evs', q2)))"

text \<open>The ids of the jobs announced by \<open>'next'\<close>, in the order of the announcements.\<close>

fun next_ids :: "event list \<Rightarrow> nat list" where
  "next_ids [] = []"
| "next_ids (EvNext (Some j) # evs) = fst j # next_ids evs"
| "next_ids (e # evs) = next_ids evs"

definition is_removal :: "op \<Rightarrow> bool" where
  "is_removal x = (case x of Done _ \<Rightarrow> True | Delete _ \<Rightarrow> True | _ \<Rightarrow> False)"

text \<open>The object after an operation, and the queue opened on an empty in-memory store.\<close>

definition after :: "'a \<times> event list \<times> pq \<Rightarrow> pq" where
  "after r = snd (snd r)"

definition events_of :: "'a \<times> event list \<times> pq \<Rightarrow> event list" where
  "events_of r = fst (snd r)"

definition fresh_queue :: pq where
  "fresh_queue = after (open_q empty_db (initial_pq (JString '':memory:'') (Finite 10)))"

text \<open>What an operation that succeeds adds to the count.\<close>

definition net :: "op \<Rightarrow> int" where
  "net x = (case x of Add _ \<Rightarrow> 1 | Done _ \<Rightarrow> - 1 | Delete _ \<Rightarrow> - 1 | _ \<Rightarrow> 0)"

subsection \<open>The invariant of an opened queue\<close>

text \<open>
  What holds of the object between operations once it is open: the database is open and
  well formed, the count is the number of stored jobs, the window is an initial part of
  the stored jobs, a set \<open>empty\<close> flag means that nothing is stored, the flag is
  defined, and the batch size is one SQLite reads as a positive integer.
\<close>

definition queue_inv :: "pq \<Rightarrow> bool" where
  "queue_inv q \<longleftrightarrow>
     (case db q of
        None \<Rightarrow> False
      | Some d \<Rightarrow>
          wf_db d \<and> length_q q = Some (int (length (rows d))) \<and> prefix (queue q) (rows d)
          \<and> (empty_q q = Some True \<longrightarrow> rows d = []) \<and> empty_q q \<noteq> None
          \<and> (case sql_integer (batchSize q) of None \<Rightarrow> False | Some n \<Rightarrow> 1 \<le> n))"

text \<open>The stored rows and the last id the storage has assigned, read off the object.\<close>

definition stored :: "pq \<Rightarrow> row list" where
  "stored q = (case db q of None \<Rightarrow> [] | Some d \<Rightarrow> rows d)"

definition last_id :: "pq \<Rightarrow> nat" where
  "last_id q = (case db q of None \<Rightarrow> 0 | Some d \<Rightarrow> seq d)"

text \<open>The stored job with the least id, parsed as hydration parses it, if there is one.\<close>

definition least_job :: "pq \<Rightarrow> job option" where
  "least_job q = head (map (\<lambda>r. (fst r, JSON_parse (snd r))) (sort_key fst (stored q)))"

fun is_next :: "event \<Rightarrow> bool" where
  "is_next (EvNext j) = True"
| "is_next e = False"

text \<open>
  When an operation is to announce a job, in the words of the specification: the
  consumption trigger is invoked after \<open>start\<close>, after a job is added while the queue
  was empty, and after a job is completed; it acts on a running queue only, and announces
  when a job is stored.
\<close>

definition announces :: "op \<Rightarrow> pq \<Rightarrow> bool" where
  "announces x q \<longleftrightarrow>
     (case x of
        Start \<Rightarrow> \<not> isStarted q
      | Add job \<Rightarrow> isStarted q \<and> empty_q q = Some True
      | Done idarg \<Rightarrow> isStarted q \<and> fst (apply_op x q) = Succeeded
      | _ \<Rightarrow> False)
     \<and> least_job (after (apply_op x q)) \<noteq> None"

text \<open>
  A consumer that acknowledges the job it was given: \<open>done\<close> is called without an id,
  or with the least stored id. A queue that is not restarted: \<open>start\<close> is not called on
  a stopped queue that has been started before.
\<close>

definition removes_head :: "nat option \<Rightarrow> pq \<Rightarrow> bool" where
  "removes_head idarg q =
     (case idarg of
        None \<Rightarrow> True
      | Some i \<Rightarrow> (case least_job q of None \<Rightarrow> False | Some j \<Rightarrow> fst j = i))"

fun disciplined :: "bool \<Rightarrow> op list \<Rightarrow> pq \<Rightarrow> bool" where
  "disciplined started [] q = True"
| "disciplined started (x # xs) q =
     ((case x of
         Done idarg \<Rightarrow> removes_head idarg q
       | Start \<Rightarrow> \<not> started \<or> isStarted q
       | _ \<Rightarrow> True)
      \<and> disciplined (started \<or> x = Start) xs (after (apply_op x q)))"

text \<open>An id that no stored job and no job stored later goes below.\<close>

definition announced :: "nat \<Rightarrow> pq \<Rightarrow> bool" where
  "announced a q \<longleftrightarrow> a \<le> last_id q \<and> list_all (\<lambda>r. a \<le> fst r) (stored q)"


definition is_delete :: "op \<Rightarrow> bool" where
  "is_delete x = (case x of Delete _ \<Rightarrow> True | _ \<Rightarrow> False)"

text \<open>
  A store that holds one job, and the queue opened on it. The queue opened with batch
  size 2 on an empty store.
\<close>

definition stocked_db :: database where
  "stocked_db = \<lparr>rows = [(1, ''a'')], seq = 1, counter = 1, vacuums = 0\<rparr>"

definition stocked_queue :: pq where
  "stocked_queue = after (open_q stocked_db (initial_pq (JString ''jobs.db'') (Finite 10)))"

definition small_queue :: pq where
  "small_queue = after (open_q empty_db (initial_pq (JString '':memory:'') (Finite 2)))"

section \<open>Basic facts\<close>

subsection \<open>Evaluation of the storage and of the parser\<close>

lemma js_less_than_simps [simp]:
  "js_less_than (Finite r) c \<longleftrightarrow> r < c"
  "\<not> js_less_than NaN c"
  "\<not> js_less_than Infinity c"
  "js_less_than NegInfinity c"
  by (simp_all add: js_less_than_def)

lemma db_select_limit_take:
  "0 \<le> n \<Longrightarrow> db_select_limit n d = take (nat n) (sort_key fst (rows d))"
  by (simp add: db_select_limit_def)

lemma parse_rows: "map (\<lambda>r. (fst r, JSON_parse (snd r))) jobs = jobs"
  by (simp add: JSON_parse_def)

subsection \<open>Batch sizes the constructor lets through\<close>

text \<open>
  \<open>NaN\<close> and a fraction above 1 are of type number and not below 1: the constructor
  builds the queue. SQLite refuses them as a \<open>LIMIT\<close>, so \<open>open\<close> does not
  complete on such a queue.
\<close>

lemma constructor_accepts_NaN:
  "PersistentQueue (JString ''jobs.db'') (JNumber NaN)
     = Returned (initial_pq (JString ''jobs.db'') NaN)"
  by (simp add: PersistentQueue_def typeof_def)

lemma constructor_accepts_fraction:
  "PersistentQueue (JString ''jobs.db'') (JNumber (Finite (3 / 2)))
     = Returned (initial_pq (JString ''jobs.db'') (Finite (3 / 2)))"
  by (simp add: PersistentQueue_def typeof_def)

lemma open_refused_limit:
  "sql_integer (batchSize q) = None \<Longrightarrow> fst (open_q store q) = Exited"
  by (simp add: open_q_def countQueue_def hydrateQueue_def)

lemma sql_integer_refuses:
  "sql_integer NaN = None" and "sql_integer (Finite (3 / 2)) = None"
proof -
  have "\<lfloor>3 / 2 :: rat\<rfloor> = 1" by (rule floor_unique) simp_all
  then show "sql_integer (Finite (3 / 2)) = None" by (simp add: sql_integer_def)
  show "sql_integer NaN = None" by (simp add: sql_integer_def)
qed

subsection \<open>The queue opened on an empty store, and one job added to it\<close>

lemma fresh_queue_eq:
  "fresh_queue =
     \<lparr>debug = False, empty_q = Some True, dbPath = JString '':memory:'', batchSize = Finite 10,
      queue = [], length_q = Some 0,
      db = Some \<lparr>rows = [], seq = 0, counter = 0, vacuums = 0\<rparr>,
      opened = True, run = False\<rparr>"
  by (simp add: fresh_queue_def after_def open_q_def initial_pq_def empty_db_def db_schema_def
      countQueue_def hydrateQueue_def db_select_limit_def sql_integer_def)

lemma add_fresh_queue:
  "add_q fresh_queue ''a'' =
     (Fulfilled JUndefined, [EvAdd JUndefined ''a''],
      \<lparr>debug = False, empty_q = Some False, dbPath = JString '':memory:'', batchSize = Finite 10,
       queue = [], length_q = Some 1,
       db = Some \<lparr>rows = [(1, ''a'')], seq = 1, counter = 1, vacuums = 0\<rparr>,
       opened = True, run = False\<rparr>)"
  by (simp add: fresh_queue_eq add_q_def db_insert_def JSON_stringify_def js_incr_def on_add_def)

subsection \<open>The trigger on an open database\<close>

lemma trigger_next_cases:
  assumes "db q = Some d" and "sql_integer (batchSize q) = Some n" and "0 \<le> n"
  shows "trigger_next q =
     (if \<not> run q \<or> empty_q q = Some True then (Returned (), [], q)
      else if queue q = [] \<and> length_q q \<noteq> Some 0 then
        (Returned (),
         [EvNext (head (take (nat n) (sort_key fst (rows d))))],
         q\<lparr>queue := take (nat n) (sort_key fst (rows d))\<rparr>)
      else if queue q \<noteq> [] then (Returned (), [EvNext (Some (hd (queue q)))], q)
      else (Returned (), [EvEmpty],
            q\<lparr>empty_q := Some True, db := Some (d\<lparr>vacuums := Suc (vacuums d)\<rparr>)\<rparr>))"
proof -
  have hyd: "hydrateQueue q (batchSize q) =
      (Fulfilled (take (nat n) (sort_key fst (rows d))),
       q\<lparr>queue := take (nat n) (sort_key fst (rows d))\<rparr>)"
    using assms by (simp add: hydrateQueue_def db_select_limit_take parse_rows Let_def)
  have emp: "on_empty q =
      (Returned (), q\<lparr>empty_q := Some True, db := Some (d\<lparr>vacuums := Suc (vacuums d)\<rparr>)\<rparr>)"
    using assms by (simp add: on_empty_def db_vacuum_def)
  have hd: "queue q \<noteq> [] \<Longrightarrow> head (queue q) = Some (hd (queue q))"
    by (cases "queue q") (simp_all add: head_def)
  show ?thesis
    unfolding trigger_next_def hyd emp using hd by simp
qed

section \<open>The consumption trigger\<close>



section \<open>What add, has and getFirstJobId hand back\<close>

text \<open>
  C5. One job added to the queue opened on an empty store: the storage assigns id 1, but
  the promise of \<open>add\<close> is fulfilled with \<open>undefined\<close> and the \<open>'add'\<close> notification
  carries \<open>undefined\<close> as the id, next to the payload.
\<close>

theorem add_resolves_undefined:
  "fst (add_q fresh_queue ''a'') = Fulfilled JUndefined
   \<and> events_of (add_q fresh_queue ''a'') = [EvAdd JUndefined ''a'']
   \<and> map_option rows (db (after (add_q fresh_queue ''a''))) = Some [(1, ''a'')]"
  by (simp add: add_fresh_queue events_of_def after_def)

text \<open>
  C6. After that job is added, the promise of \<open>has(1)\<close> is rejected, with \<open>true\<close> as
  the reason; after the job is deleted it is rejected with \<open>false\<close>. It is fulfilled in
  neither state.
\<close>

theorem has_rejects_with_answer:
  "has_q (after (add_q fresh_queue ''a'')) 1 = Rejected (JBool True)
   \<and> has_q (after (delete_q (after (add_q fresh_queue ''a'')) (Some 1))) 1
       = Rejected (JBool False)"
  by (simp add: add_fresh_queue after_def has_q_def settle_def settled_def db_select_by_id_def
      delete_q_def removeJob_def removeJob_db_def db_delete_def js_decr_def js_of_id_def)

text \<open>
  C7. On the queue opened on an empty store no job matches any payload, and the promise
  of \<open>getFirstJobId\<close> is fulfilled with \<open>undefined\<close>, not with \<open>null\<close>.
\<close>

theorem getFirstJobId_not_found_is_undefined:
  "getFirstJobId fresh_queue ''x'' = Fulfilled JUndefined"
  by (simp add: fresh_queue_eq getFirstJobId_def searchQueue_def db_select_ids_by_job_def
      identical_to_new_array_def head_def JSON_stringify_def)

section \<open>Closing\<close>

text \<open>
  C8, as stated, fails for the count: after \<open>open\<close> on an empty store and \<open>close\<close>,
  \<open>getLength\<close> gives 0, where the object the constructor built gave \<open>null\<close>.
\<close>

theorem close_count_counterexample:
  "fst (close_q fresh_queue) = Fulfilled JUndefined
   \<and> getLength (after (close_q fresh_queue)) = Some 0
   \<and> getLength (initial_pq (JString '':memory:'') (Finite 10)) = None"
  by (simp add: fresh_queue_eq close_q_def on_close_def after_def getLength_def initial_pq_def)

text \<open>
  C8, amended. When the promise of \<open>close\<close> is fulfilled, the object is the one the
  constructor built for the same path and batch size (empty window, \<open>empty\<close> undefined,
  not running, not opened, no database handle), except that the debug flag and the count
  keep the values they had before \<open>close\<close>; \<open>'close'\<close> is emitted once.
\<close>

theorem close_resets_all_but_count:
  assumes "fst (close_q q) = Fulfilled v"
  shows "after (close_q q) =
           (initial_pq (dbPath q) (batchSize q))\<lparr>debug := debug q, length_q := length_q q\<rparr>
         \<and> events_of (close_q q) = [EvClose]"
  using assms
  by (cases "db q") (simp_all add: close_q_def on_close_def after_def events_of_def initial_pq_def)

theorem close_resets_all_but_count_witness:
  "fst (close_q fresh_queue) = Fulfilled JUndefined
   \<and> after (close_q fresh_queue) =
       (initial_pq (JString '':memory:'') (Finite 10))\<lparr>debug := False, length_q := Some 0\<rparr>"
proof -
  have h: "fst (close_q fresh_queue) = Fulfilled JUndefined"
    by (simp add: fresh_queue_eq close_q_def)
  show ?thesis
    using h close_resets_all_but_count [OF h] by (simp add: fresh_queue_eq)
qed

section \<open>The constructor\<close>

text \<open>
  C9. The constructor throws when the filename is \<open>undefined\<close>, and when the batch
  size is given and is not of type number or is a number below 1 (an integer, a fraction
  or minus infinity). With the batch size omitted the object is built with batch size
  10, and with the empty string as filename it is built with the path \<open>:memory:\<close>;
  the object built has its fields as the constructor assigns them.
\<close>

theorem constructor_checks:
  "PersistentQueue JUndefined bs = Threw NoFilename
   \<and> (f \<noteq> JUndefined \<longrightarrow> bs \<noteq> JUndefined \<longrightarrow>
        (typeof bs \<noteq> ''number'' \<or> (\<exists>x. bs = JNumber x \<and> js_less_than x 1)) \<longrightarrow>
        PersistentQueue f bs = Threw InvalidBatchSize)
   \<and> (f \<noteq> JUndefined \<longrightarrow>
        PersistentQueue f JUndefined =
          Returned \<lparr>debug = False, empty_q = None,
                    dbPath = (if f = JString [] then JString '':memory:'' else f),
                    batchSize = Finite 10, queue = [], length_q = None, db = None,
                    opened = False, run = False\<rparr>)
   \<and> (\<not> js_less_than x 1 \<longrightarrow>
        PersistentQueue (JString []) (JNumber x) =
          Returned \<lparr>debug = False, empty_q = None, dbPath = JString '':memory:'',
                    batchSize = x, queue = [], length_q = None, db = None,
                    opened = False, run = False\<rparr>)"
  by (auto simp: PersistentQueue_def typeof_def initial_pq_def split: js_value.splits)

theorem constructor_checks_witness:
  "PersistentQueue JUndefined (JNumber (Finite 3)) = Threw NoFilename
   \<and> PersistentQueue (JString ''jobs.db'') (JString ''5'') = Threw InvalidBatchSize
   \<and> PersistentQueue (JString ''jobs.db'') (JNumber (Finite 0)) = Threw InvalidBatchSize
   \<and> PersistentQueue (JString ''jobs.db'') (JNumber (Finite (1 / 2))) = Threw InvalidBatchSize
   \<and> PersistentQueue (JString ''jobs.db'') JUndefined
       = Returned \<lparr>debug = False, empty_q = None, dbPath = JString ''jobs.db'',
                   batchSize = Finite 10, queue = [], length_q = None, db = None,
                   opened = False, run = False\<rparr>
   \<and> PersistentQueue (JString []) (JNumber (Finite 2))
       = Returned \<lparr>debug = False, empty_q = None, dbPath = JString '':memory:'',
                   batchSize = Finite 2, queue = [], length_q = None, db = None,
                   opened = False, run = False\<rparr>"
proof -
  have a: "typeof (JString ''5'') \<noteq> ''number''" by (simp add: typeof_def)
  have b: "\<exists>x. JNumber (Finite 0) = JNumber x \<and> js_less_than x 1"
    by (simp add: js_less_than_def)
  have c: "\<exists>x. JNumber (Finite (1 / 2)) = JNumber x \<and> js_less_than x 1"
    by (simp add: js_less_than_def)
  have d: "\<not> js_less_than (Finite 2) 1" by (simp add: js_less_than_def)
  show ?thesis
    using constructor_checks [of "JNumber (Finite 3)" "JString ''jobs.db''" "Finite 2"]
      constructor_checks [of "JString ''5''" "JString ''jobs.db''" "Finite 2"]
      constructor_checks [of "JNumber (Finite 0)" "JString ''jobs.db''" "Finite 2"]
      constructor_checks [of "JNumber (Finite (1 / 2))" "JString ''jobs.db''" "Finite 2"] a b c d
    by simp
qed

section \<open>Removal without an id\<close>

text \<open>
  C10, as stated, fails for \<open>delete\<close>: on an empty window the call does not throw; it
  returns a promise, which is rejected with the \<open>TypeError\<close>.
\<close>

theorem delete_without_id_counterexample:
  "queue fresh_queue = []
   \<and> fst (delete_q fresh_queue None) = Rejected (JError TypeError)
   \<and> fst (delete_q fresh_queue None) \<noteq> Threw TypeError"
  by (simp add: fresh_queue_eq delete_q_def removeJob_def)

text \<open>
  C10, amended. With the id omitted and the window empty, \<open>done\<close> throws a
  \<open>TypeError\<close> synchronously and \<open>delete\<close> returns a promise rejected with that
  \<open>TypeError\<close>. In both cases nothing is emitted and the object, its storage included,
  is left as it was: the removal is not tried on the storage and no "not removed"
  failure is reported.
\<close>

theorem remove_without_id_on_empty_window:
  assumes "queue q = []"
  shows "done_q q None = (Threw TypeError, [], q)
         \<and> delete_q q None = (Rejected (JError TypeError), [], q)"
  using assms by (simp add: done_q_def delete_q_def removeJob_def)

theorem remove_without_id_on_empty_window_witness:
  "queue fresh_queue = []
   \<and> done_q fresh_queue None = (Threw TypeError, [], fresh_queue)
   \<and> delete_q fresh_queue None = (Rejected (JError TypeError), [], fresh_queue)"
proof -
  have h: "queue fresh_queue = []" by (simp add: fresh_queue_eq)
  show ?thesis using h remove_without_id_on_empty_window [OF h] by simp
qed

section \<open>The count\<close>

subsection \<open>Which steps change the count\<close>

lemma hydrateQueue_length [simp]: "length_q (snd (hydrateQueue q n)) = length_q q"
  by (simp add: hydrateQueue_def Let_def split: option.splits)

lemma on_empty_length [simp]: "length_q (snd (on_empty q)) = length_q q"
  by (simp add: on_empty_def Let_def split: option.splits)

lemma trigger_next_length [simp]: "length_q (after (trigger_next q)) = length_q q"
proof -
  have h: "length_q (snd (hydrateQueue q (batchSize q))) = length_q q" by simp
  have e: "length_q (snd (on_empty q)) = length_q q" by simp
  show ?thesis
    using h e
    by (cases "hydrateQueue q (batchSize q)"; cases "on_empty q";
        cases "fst (hydrateQueue q (batchSize q))")
       (simp_all add: trigger_next_def after_def)
qed

lemma on_add_length [simp]: "length_q (after (on_add q)) = length_q q"
proof -
  have "length_q (after (trigger_next (q\<lparr>empty_q := Some False\<rparr>))) = length_q q"
    by (simp only: trigger_next_length) simp
  then show ?thesis by (simp add: on_add_def Let_def after_def)
qed

lemma removeJob_db_length [simp]: "length_q (snd (removeJob_db q i)) = length_q q"
  by (simp add: removeJob_db_def split: option.splits prod.splits)

lemma removeJob_length [simp]: "length_q (snd (removeJob q idarg)) = length_q q"
  by (simp add: removeJob_def split: option.splits list.splits)

lemma add_q_length:
  assumes "add_q q job = (r, evs, q')" and "status_of r = Succeeded"
  shows "length_q q' = js_incr (length_q q)"
proof (cases "db q")
  case None
  with assms show ?thesis by (auto simp: add_q_def status_of_def)
next
  case (Some d)
  let ?q2 = "q\<lparr>db := Some (db_insert (JSON_stringify job) d), length_q := js_incr (length_q q)\<rparr>"
  have "q' = after (on_add ?q2)"
    using assms Some
    by (cases "on_add ?q2"; cases "fst (on_add ?q2)")
       (simp_all add: add_q_def Let_def after_def)
  then show ?thesis by (simp only: on_add_length) simp
qed

lemma done_q_length:
  assumes "done_q q idarg = (r, evs, q')" and "status_of r = Succeeded"
  shows "length_q q' = js_decr (length_q q)"
proof -
  obtain o1 q1 where rj: "removeJob q idarg = (o1, q1)" by (cases "removeJob q idarg")
  have l1: "length_q q1 = length_q q" using removeJob_length [of q idarg] rj by simp
  let ?q2 = "q1\<lparr>length_q := js_decr (length_q q1)\<rparr>"
  have "q' = after (trigger_next ?q2)"
    using assms rj
    by (cases o1; cases "trigger_next ?q2"; cases "fst (trigger_next ?q2)")
       (auto simp: done_q_def after_def status_of_def)
  then show ?thesis using l1 by (simp only: trigger_next_length) simp
qed

lemma delete_q_length:
  assumes "delete_q q idarg = (r, evs, q')" and "status_of r = Succeeded"
  shows "length_q q' = js_decr (length_q q)"
proof -
  obtain o1 q1 where rj: "removeJob q idarg = (o1, q1)" by (cases "removeJob q idarg")
  have l1: "length_q q1 = length_q q" using removeJob_length [of q idarg] rj by simp
  show ?thesis
    using assms rj l1 by (cases o1) (auto simp: delete_q_def status_of_def)
qed

lemma start_q_length: "length_q (after (start_q q)) = length_q q"
proof (cases "db q")
  case None
  then show ?thesis by (simp add: start_q_def after_def)
next
  case (Some d)
  have "length_q (after (trigger_next (q\<lparr>run := True\<rparr>))) = length_q q"
    by (simp only: trigger_next_length) simp
  with Some show ?thesis by (simp add: start_q_def after_def)
qed

lemma apply_op_length:
  assumes "apply_op x q = (Succeeded, evs, q')" and "length_q q = Some n"
  shows "length_q q' = Some (n + net x)"
proof (cases x)
  case (Add job)
  obtain r e q1 where a: "add_q q job = (r, e, q1)" by (cases "add_q q job")
  with assms Add have "status_of r = Succeeded" "q1 = q'" by (simp_all add: apply_op_def)
  with add_q_length [OF a] assms Add show ?thesis by (simp add: js_incr_def net_def)
next
  case (Done idarg)
  obtain r e q1 where a: "done_q q idarg = (r, e, q1)" by (cases "done_q q idarg")
  with assms Done have "status_of r = Succeeded" "q1 = q'" by (simp_all add: apply_op_def)
  with done_q_length [OF a] assms Done show ?thesis by (simp add: js_decr_def net_def)
next
  case (Delete idarg)
  obtain r e q1 where a: "delete_q q idarg = (r, e, q1)" by (cases "delete_q q idarg")
  with assms Delete have "status_of r = Succeeded" "q1 = q'" by (simp_all add: apply_op_def)
  with delete_q_length [OF a] assms Delete show ?thesis by (simp add: js_decr_def net_def)
next
  case Start
  obtain r e q1 where a: "start_q q = (r, e, q1)" by (cases "start_q q")
  with assms Start have "q1 = q'" by (simp add: apply_op_def)
  with start_q_length [of q] a assms Start show ?thesis by (simp add: after_def net_def)
next
  case Stop
  with assms show ?thesis by (auto simp: apply_op_def stop_q_def net_def)
qed

lemma run_ops_length:
  assumes "run_ops xs q = (ss, evs, q')" and "ss = replicate (length xs) Succeeded"
    and "length_q q = Some n"
  shows "length_q q' = Some (n + sum_list (map net xs))"
  using assms
proof (induction xs arbitrary: q ss evs n)
  case Nil
  then show ?case by simp
next
  case (Cons x xs)
  obtain s e q1 where a: "apply_op x q = (s, e, q1)" by (cases "apply_op x q")
  obtain ss2 e2 q2 where b: "run_ops xs q1 = (ss2, e2, q2)" by (cases "run_ops xs q1")
  from Cons.prems(1,2) a b have s: "s = Succeeded" and ss2: "ss2 = replicate (length xs) Succeeded"
    and q2: "q2 = q'"
    by (auto split: if_splits)
  from apply_op_length [OF a [unfolded s] Cons.prems(3)]
  have l1: "length_q q1 = Some (n + net x)" .
  from Cons.IH [OF b [unfolded q2] ss2 l1] show ?case by (simp add: add.assoc)
qed

lemma open_q_length:
  assumes "open_q store q0 = (Fulfilled jobs, evs0, q)"
  shows "length_q q = Some (int (length (rows store)))"
proof -
  let ?q2 = "q0\<lparr>db := Some (db_schema store), length_q := Some (int (length (rows store)))\<rparr>"
  have c: "countQueue (q0\<lparr>db := Some (db_schema store)\<rparr>) = (Fulfilled JUndefined, ?q2)"
    by (simp add: countQueue_def db_schema_def)
  obtain r q3 where h: "hydrateQueue ?q2 (batchSize ?q2) = (r, q3)"
    by (cases "hydrateQueue ?q2 (batchSize ?q2)")
  have "length_q (snd (hydrateQueue ?q2 (batchSize ?q2))) = length_q ?q2"
    by (rule hydrateQueue_length)
  then have "length_q q3 = Some (int (length (rows store)))"
    unfolding h by simp
  moreover have "length_q q = length_q q3"
    using assms c h by (cases r) (auto simp: open_q_def Let_def)
  ultimately show ?thesis by simp
qed

lemma sum_net_adds: "sum_list (map net (map Add ps)) = int (length ps)"
  by (induction ps) (simp_all add: net_def)

lemma sum_net_removals: "list_all is_removal rms \<Longrightarrow> sum_list (map net rms) = - int (length rms)"
  by (induction rms) (auto simp: net_def is_removal_def split: op.splits)

lemma open_fresh_queue:
  "open_q empty_db (initial_pq (JString '':memory:'') (Finite 10))
     = (Fulfilled [], [EvOpen], fresh_queue)"
  by (simp add: fresh_queue_eq open_q_def initial_pq_def empty_db_def db_schema_def
      countQueue_def hydrateQueue_def db_select_limit_def sql_integer_def)

lemmas op_defs = apply_op_def add_q_def done_q_def delete_q_def start_q_def stop_q_def
  on_add_def on_empty_def trigger_next_def removeJob_def removeJob_db_def hydrateQueue_def
  db_insert_def db_delete_def db_select_limit_def db_vacuum_def sql_integer_def JSON_stringify_def
  JSON_parse_def js_incr_def js_decr_def js_of_id_def status_of_def head_def

lemma stocked_queue_eq:
  "stocked_queue =
     \<lparr>debug = False, empty_q = Some False, dbPath = JString ''jobs.db'', batchSize = Finite 10,
      queue = [(1, ''a'')], length_q = Some 1,
      db = Some \<lparr>rows = [(1, ''a'')], seq = 1, counter = 1, vacuums = 0\<rparr>,
      opened = True, run = False\<rparr>"
  by (simp add: stocked_queue_def stocked_db_def after_def open_q_def initial_pq_def
      db_schema_def countQueue_def hydrateQueue_def db_select_limit_def sql_integer_def
      JSON_parse_def Let_def)

lemma open_stocked_queue:
  "open_q stocked_db (initial_pq (JString ''jobs.db'') (Finite 10))
     = (Fulfilled [(1, ''a'')], [EvOpen], stocked_queue)"
  by (simp add: stocked_queue_eq stocked_db_def open_q_def initial_pq_def
      db_schema_def countQueue_def hydrateQueue_def db_select_limit_def sql_integer_def
      JSON_parse_def Let_def)

text \<open>
  C3, as stated, fails on a store that holds jobs when it is opened: the count starts at
  the number of stored jobs. On a store with one job, one add and one removal, both
  successful, leave \<open>getLength\<close> at 1, while adds minus removals is 0.
\<close>

theorem getLength_stocked_counterexample:
  "fst (open_q stocked_db (initial_pq (JString ''jobs.db'') (Finite 10))) = Fulfilled [(1, ''a'')]
   \<and> fst (run_ops (map Add [''b''] @ [Delete (Some 2)]) stocked_queue) = [Succeeded, Succeeded]
   \<and> getLength (after (run_ops (map Add [''b''] @ [Delete (Some 2)]) stocked_queue)) = Some 1
   \<and> int (length [''b'']) - int (length [Delete (Some 2)]) = 0"
  by (simp add: open_stocked_queue stocked_queue_eq after_def getLength_def op_defs Let_def)

text \<open>
  C3, amended. On a queue that \<open>open\<close> has just opened, let a sequence of adds run,
  then a sequence of \<open>done\<close>/\<open>delete\<close> calls, every one of them successful. Right
  after \<open>open\<close>, \<open>getLength\<close> is the number of jobs the store holds; after the
  sequence it is that number plus the number of adds minus the number of removals: each
  add counts one up and each removal one down.
\<close>

theorem getLength_net_count:
  assumes "open_q store q0 = (Fulfilled jobs, evs0, q)"
    and "list_all is_removal rms"
    and "run_ops (map Add ps @ rms) q = (ss, evs, q')"
    and "ss = replicate (length ps + length rms) Succeeded"
  shows "getLength q = Some (int (length (rows store)))
         \<and> getLength q' = Some (int (length (rows store)) + int (length ps) - int (length rms))"
proof -
  have "length_q q' = Some (int (length (rows store)) + sum_list (map net (map Add ps @ rms)))"
    using run_ops_length [OF assms(3) _ open_q_length [OF assms(1)]] assms(4) by simp
  then show ?thesis
    using sum_net_adds [of ps] sum_net_removals [OF assms(2)] open_q_length [OF assms(1)]
    by (simp add: getLength_def)
qed

theorem getLength_net_count_witness:
  "open_q stocked_db (initial_pq (JString ''jobs.db'') (Finite 10))
     = (Fulfilled [(1, ''a'')], [EvOpen], stocked_queue)
   \<and> list_all is_removal [Delete (Some 1), Done (Some 2)]
   \<and> fst (run_ops (map Add [''b'', ''c''] @ [Delete (Some 1), Done (Some 2)]) stocked_queue)
       = replicate (length [''b'', ''c''] + length [Delete (Some 1), Done (Some 2)]) Succeeded
   \<and> getLength stocked_queue = Some 1
   \<and> getLength (after (run_ops (map Add [''b'', ''c''] @ [Delete (Some 1), Done (Some 2)])
        stocked_queue)) = Some 1"
proof -
  let ?ops = "map Add [''b'', ''c''] @ [Delete (Some 1), Done (Some 2)]"
  have b: "list_all is_removal [Delete (Some 1), Done (Some 2)]"
    by (simp add: is_removal_def)
  have c: "run_ops ?ops stocked_queue
      = (fst (run_ops ?ops stocked_queue), events_of (run_ops ?ops stocked_queue),
         after (run_ops ?ops stocked_queue))"
    by (simp add: events_of_def after_def)
  have d: "fst (run_ops ?ops stocked_queue)
      = replicate (length [''b'', ''c''] + length [Delete (Some 1), Done (Some 2)]) Succeeded"
    by (simp add: stocked_queue_eq op_defs Let_def)
  show ?thesis
    using open_stocked_queue b d getLength_net_count [OF open_stocked_queue b c d]
    by (simp add: stocked_db_def)
qed

section \<open>The invariant of an opened queue\<close>

subsection \<open>Lists of rows\<close>

lemma fresh_id:
  "a \<notin> fst ` set js \<Longrightarrow> \<forall>x\<in>set js. fst x \<noteq> a"
  by (auto simp: image_iff)

lemma splice_id_filter:
  "distinct (map fst w) \<Longrightarrow> splice_id i w = filter (\<lambda>j. fst j \<noteq> i) w"
proof (induction w)
  case Nil
  then show ?case by simp
next
  case (Cons j js)
  have "fst j = i \<Longrightarrow> filter (\<lambda>r. fst r \<noteq> i) js = js"
    using Cons.prems fresh_id [of i js] by (intro filter_True) simp
  with Cons show ?case by simp
qed

lemma tl_filter:
  assumes "distinct (map fst (j # js))"
  shows "js = filter (\<lambda>r. fst r \<noteq> fst j) (j # js)"
proof -
  have "filter (\<lambda>r. fst r \<noteq> fst j) js = js"
    using assms fresh_id [of "fst j" js] by (intro filter_True) simp
  then show ?thesis by simp
qed

lemma strict_ids_distinct:
  "sorted_wrt (<) (map fst (rs :: row list)) \<Longrightarrow> distinct (map fst rs)"
  by (simp add: strict_sorted_iff)

lemma prefix_distinct_ids:
  assumes "prefix w rs" and "distinct (map fst rs)"
  shows "distinct (map fst w)"
proof -
  from assms(1) obtain zs where "rs = w @ zs" by (auto elim: prefixE)
  with assms(2) show ?thesis by simp
qed

lemma strict_ids_filter:
  "sorted_wrt (<) (map fst (rs :: row list)) \<Longrightarrow> sorted_wrt (<) (map fst (filter P rs))"
  by (induction rs) auto

lemma strict_ids_sort:
  "sorted_wrt (<) (map fst (rs :: row list)) \<Longrightarrow> sort_key fst rs = rs"
  by (simp add: sort_key_id_if_sorted strict_sorted_imp_sorted)

lemma count_id_rows:
  "distinct (map fst rs) \<Longrightarrow> length (filter (\<lambda>r. fst r = i) rs) \<le> 1"
proof (induction rs)
  case Nil
  then show ?case by simp
next
  case (Cons r rs)
  have "fst r = i \<Longrightarrow> filter (\<lambda>r. fst r = i) rs = []"
    using Cons.prems fresh_id [of i rs] by (simp add: filter_empty_conv)
  with Cons show ?case by simp
qed

lemma length_after_delete:
  assumes "distinct (map fst rs)" and "filter (\<lambda>r. fst r = i) rs \<noteq> []"
  shows "int (length (filter (\<lambda>r. fst r \<noteq> i) rs)) = int (length rs) - 1"
proof -
  have "length (filter (\<lambda>r. fst r = i) rs) = 1"
    using count_id_rows [OF assms(1), of i] assms(2)
    by (cases "filter (\<lambda>r. fst r = i) rs") simp_all
  moreover have "length (filter (\<lambda>r. fst r = i) rs) + length (filter (\<lambda>r. \<not> fst r = i) rs)
      = length rs"
    by (rule sum_length_filter_compl)
  ultimately show ?thesis by simp
qed

lemma no_row_no_change:
  "filter (\<lambda>r. fst r = i) rs = [] \<Longrightarrow> filter (\<lambda>r. fst r \<noteq> i) rs = rs"
  by (induction rs) (auto split: if_splits)

lemma strict_ids_head_least:
  "sorted_wrt (<) (map fst (r # (rs :: row list)))
     \<Longrightarrow> list_all (\<lambda>x. fst r \<le> fst x) (r # rs)"
  by (auto simp: list_all_iff less_imp_le)

lemma list_all_filter: "list_all P rs \<Longrightarrow> list_all P (filter Q rs)"
  by (simp add: list_all_iff)



subsection \<open>Reading the invariant\<close>

lemma queue_invD:
  assumes "queue_inv q"
  obtains d n where "db q = Some d" and "wf_db d"
    and "length_q q = Some (int (length (rows d)))" and "prefix (queue q) (rows d)"
    and "empty_q q = Some True \<longrightarrow> rows d = []" and "empty_q q \<noteq> None"
    and "sql_integer (batchSize q) = Some n" and "1 \<le> n"
  using assms by (auto simp: queue_inv_def split: option.splits)

lemma queue_invI:
  assumes "db q = Some d" and "wf_db d"
    and "length_q q = Some (int (length (rows d)))" and "prefix (queue q) (rows d)"
    and "empty_q q = Some True \<longrightarrow> rows d = []" and "empty_q q \<noteq> None"
    and "sql_integer (batchSize q) = Some n" and "1 \<le> n"
  shows "queue_inv q"
  using assms by (simp add: queue_inv_def)

lemma stored_db [simp]: "db q = Some d \<Longrightarrow> stored q = rows d"
  by (simp add: stored_def)

lemma last_id_db [simp]: "db q = Some d \<Longrightarrow> last_id q = seq d"
  by (simp add: last_id_def)

lemma least_job_head:
  assumes "queue_inv q"
  shows "least_job q = head (stored q)"
proof -
  from assms obtain d where "db q = Some d" and "wf_db d" by (rule queue_invD)
  then show ?thesis by (simp add: least_job_def parse_rows wf_db_def strict_ids_sort)
qed

lemma head_Cons [simp]: "head (x # xs) = Some x" and head_Nil [simp]: "head [] = None"
  by (simp_all add: head_def)

lemma head_eq_None [simp]: "head xs = None \<longleftrightarrow> xs = []"
  by (cases xs) simp_all

lemma next_ids_filter: "next_ids (filter is_next evs) = next_ids evs"
  by (induction evs rule: next_ids.induct) simp_all

lemma no_undefined_filter: "EvNext None \<in> set evs \<longleftrightarrow> EvNext None \<in> set (filter is_next evs)"
  by auto

subsection \<open>What the trigger does under the invariant\<close>

lemma trigger_next_effect:
  assumes qi: "queue_inv q" and tr: "trigger_next q = (r, evs, q')"
  shows "r = Returned ()" and "queue_inv q'" and "stored q' = stored q"
    and "last_id q' = last_id q" and "run q' = run q"
    and "filter is_next evs =
           (if run q \<and> stored q \<noteq> [] then [EvNext (head (stored q))] else [])"
    and "run q \<and> stored q \<noteq> [] \<longrightarrow> head (queue q') = head (stored q)"
    and "run q \<longrightarrow> (empty_q q' = Some True \<longleftrightarrow> stored q = [])"
    and "\<not> run q \<longrightarrow> empty_q q' = empty_q q"
proof -
  from qi obtain d n where db: "db q = Some d" and wf: "wf_db d"
    and len: "length_q q = Some (int (length (rows d)))" and pre: "prefix (queue q) (rows d)"
    and emp: "empty_q q = Some True \<longrightarrow> rows d = []" and def: "empty_q q \<noteq> None"
    and lim: "sql_integer (batchSize q) = Some n" and n1: "1 \<le> n"
    by (rule queue_invD)
  have n0: "0 \<le> n" using n1 by simp
  note pol = trigger_next_cases [OF db lim n0]
  have st: "stored q = rows d" using db by simp
  consider (idle) "\<not> run q \<or> empty_q q = Some True"
    | (hydrate) "\<not> (\<not> run q \<or> empty_q q = Some True)" "queue q = []" "length_q q \<noteq> Some 0"
    | (window) "\<not> (\<not> run q \<or> empty_q q = Some True)" "queue q \<noteq> []"
    | (drained) "\<not> (\<not> run q \<or> empty_q q = Some True)" "queue q = []" "length_q q = Some 0"
    by blast
  then have "r = Returned () \<and> queue_inv q' \<and> stored q' = stored q
    \<and> last_id q' = last_id q \<and> run q' = run q
    \<and> filter is_next evs = (if run q \<and> stored q \<noteq> [] then [EvNext (head (stored q))] else [])
    \<and> (run q \<and> stored q \<noteq> [] \<longrightarrow> head (queue q') = head (stored q))
    \<and> (run q \<longrightarrow> (empty_q q' = Some True \<longleftrightarrow> stored q = []))
    \<and> (\<not> run q \<longrightarrow> empty_q q' = empty_q q)"
  proof cases
    case idle
    with pol tr have res: "r = Returned ()" "evs = []" "q' = q" by simp_all
    from idle emp have "run q \<longrightarrow> rows d = []" by blast
    with res qi idle st show ?thesis by auto
  next
    case hydrate
    from hydrate(3) len obtain r0 rs where rows: "rows d = r0 # rs"
      by (cases "rows d") simp_all
    have srt: "sort_key fst (rows d) = rows d"
      using wf by (simp add: wf_db_def strict_ids_sort)
    have tk: "take (nat n) (rows d) = r0 # take (nat n - 1) rs"
      using n1 rows by (simp add: take_Cons')
    from pol tr hydrate srt tk
    have res: "r = Returned ()" "evs = [EvNext (Some r0)]"
      "q' = q\<lparr>queue := take (nat n) (rows d)\<rparr>"
      by simp_all
    have "queue_inv q'"
      using db wf len emp def lim n1 res(3)
      by (intro queue_invI [where q = q' and d = d and n = n]) (simp_all add: take_is_prefix)
    moreover have "db q' = Some d" using res(3) db by simp
    ultimately show ?thesis
      using res hydrate(1) rows st tk by (auto simp: stored_def last_id_def)
  next
    case window
    then obtain j js where w: "queue q = j # js" by (cases "queue q") simp_all
    with pre obtain rs where rows: "rows d = j # rs" by (cases "rows d") simp_all
    from pol tr window w have res: "r = Returned ()" "evs = [EvNext (Some j)]" "q' = q"
      by simp_all
    show ?thesis
      using res qi window(1) w rows st by auto
  next
    case drained
    from drained(3) len have rows: "rows d = []" by simp
    from pol tr drained have res: "r = Returned ()" "evs = [EvEmpty]"
      "q' = q\<lparr>empty_q := Some True, db := Some (d\<lparr>vacuums := Suc (vacuums d)\<rparr>)\<rparr>"
      by simp_all
    have "queue_inv q'"
      using wf len pre rows lim n1 res(3)
      by (intro queue_invI [where q = q' and d = "d\<lparr>vacuums := Suc (vacuums d)\<rparr>" and n = n])
         (simp_all add: wf_db_def)
    then show ?thesis
      using res drained(1) rows st db by (auto simp: stored_def last_id_def)
  qed
  then show "r = Returned ()" and "queue_inv q'" and "stored q' = stored q"
    and "last_id q' = last_id q" and "run q' = run q"
    and "filter is_next evs =
           (if run q \<and> stored q \<noteq> [] then [EvNext (head (stored q))] else [])"
    and "run q \<and> stored q \<noteq> [] \<longrightarrow> head (queue q') = head (stored q)"
    and "run q \<longrightarrow> (empty_q q' = Some True \<longleftrightarrow> stored q = [])"
    and "\<not> run q \<longrightarrow> empty_q q' = empty_q q"
    by blast+
qed

subsection \<open>What a removal does under the invariant\<close>

text \<open>Under the invariant both ways of taking a job out of the window are a filter.\<close>

lemma removeJob_filter:
  assumes qi: "queue_inv q" and nt: "\<not> (idarg = None \<and> queue q = [])"
    and i: "i = (case idarg of None \<Rightarrow> fst (hd (queue q)) | Some k \<Rightarrow> k)"
  shows "removeJob q idarg =
           removeJob_db (q\<lparr>queue := filter (\<lambda>j. fst j \<noteq> i) (queue q)\<rparr>) i"
proof -
  from qi obtain d where wf: "wf_db d" and pre: "prefix (queue q) (rows d)"
    by (rule queue_invD)
  have dist: "distinct (map fst (queue q))"
    using wf pre by (intro prefix_distinct_ids [of "queue q" "rows d"])
      (simp_all add: wf_db_def strict_ids_distinct)
  show ?thesis
  proof (cases idarg)
    case None
    with nt obtain j js where w: "queue q = j # js" by (cases "queue q") simp_all
    have "js = filter (\<lambda>r. fst r \<noteq> fst j) (j # js)"
      using dist w by (intro tl_filter) simp
    then have "q\<lparr>queue := js\<rparr> = q\<lparr>queue := filter (\<lambda>r. fst r \<noteq> fst j) (j # js)\<rparr>"
      by simp
    with None w i show ?thesis by (simp add: removeJob_def)
  next
    case (Some k)
    with i show ?thesis by (simp add: removeJob_def splice_id_filter [OF dist])
  qed
qed

lemma removeJob_effect:
  assumes qi: "queue_inv q" and nt: "\<not> (idarg = None \<and> queue q = [])"
    and i: "i = (case idarg of None \<Rightarrow> fst (hd (queue q)) | Some k \<Rightarrow> k)"
    and rj: "removeJob q idarg = (o1, q1)"
  shows "stored q1 = filter (\<lambda>r. fst r \<noteq> i) (stored q)"
    and "last_id q1 = last_id q" and "run q1 = run q" and "empty_q q1 = empty_q q"
    and "length_q q1 = length_q q"
    and "o1 = Fulfilled i \<and> i \<in> fst ` set (stored q)
           \<and> queue_inv (q1\<lparr>length_q := js_decr (length_q q1)\<rparr>)
         \<or> o1 = Rejected (JError (NotRemoved i)) \<and> i \<notin> fst ` set (stored q) \<and> queue_inv q1"
proof -
  from qi obtain d n where db: "db q = Some d" and wf: "wf_db d"
    and len: "length_q q = Some (int (length (rows d)))" and pre: "prefix (queue q) (rows d)"
    and emp: "empty_q q = Some True \<longrightarrow> rows d = []" and def: "empty_q q \<noteq> None"
    and lim: "sql_integer (batchSize q) = Some n" and n1: "1 \<le> n"
    by (rule queue_invD)
  let ?gone = "filter (\<lambda>r. fst r = i) (rows d)"
  let ?rows = "filter (\<lambda>r. fst r \<noteq> i) (rows d)"
  let ?d = "d\<lparr>rows := ?rows, counter := counter d - int (length ?gone)\<rparr>"
  let ?q = "q\<lparr>queue := filter (\<lambda>j. fst j \<noteq> i) (queue q), db := Some ?d\<rparr>"
  have rm: "removeJob_db (q\<lparr>queue := filter (\<lambda>j. fst j \<noteq> i) (queue q)\<rparr>) i = (o1, q1)"
    using removeJob_filter [OF qi nt i] rj by simp
  have del: "db_delete i d = (length ?gone, ?d)" by (simp add: db_delete_def Let_def)
  have q1: "q1 = ?q"
    and o1: "o1 = (if ?gone \<noteq> [] then Fulfilled i else Rejected (JError (NotRemoved i)))"
    using rm db del by (auto simp: removeJob_db_def split: if_splits)
  have gone: "?gone \<noteq> [] \<longleftrightarrow> i \<in> fst ` set (rows d)"
    by (auto simp: filter_empty_conv image_iff)
  have wf': "wf_db ?d"
    using wf by (simp add: wf_db_def strict_ids_filter list_all_filter)
  have pre': "prefix (queue ?q) (rows ?d)"
    using pre by (simp add: filter_mono_prefix)
  have emp': "empty_q ?q = Some True \<longrightarrow> rows ?d = []" using emp by simp
  have dist: "distinct (map fst (rows d))" using wf by (simp add: wf_db_def strict_ids_distinct)
  show "stored q1 = filter (\<lambda>r. fst r \<noteq> i) (stored q)"
    and "last_id q1 = last_id q" and "run q1 = run q" and "empty_q q1 = empty_q q"
    and "length_q q1 = length_q q"
    using q1 db by (simp_all add: stored_def last_id_def)
  show "o1 = Fulfilled i \<and> i \<in> fst ` set (stored q)
           \<and> queue_inv (q1\<lparr>length_q := js_decr (length_q q1)\<rparr>)
         \<or> o1 = Rejected (JError (NotRemoved i)) \<and> i \<notin> fst ` set (stored q) \<and> queue_inv q1"
  proof (cases "?gone = []")
    case True
    then have "?rows = rows d" by (rule no_row_no_change)
    then have "length_q ?q = Some (int (length (rows ?d)))" using len by simp
    then have "queue_inv ?q"
      using wf' pre' emp' def lim n1
      by (intro queue_invI [where q = ?q and d = ?d and n = n]) simp_all
    with True q1 o1 gone db show ?thesis by simp
  next
    case False
    have "int (length ?rows) = int (length (rows d)) - 1"
      using dist False by (rule length_after_delete)
    then have "length_q (?q\<lparr>length_q := js_decr (length_q ?q)\<rparr>) = Some (int (length (rows ?d)))"
      using len by (simp add: js_decr_def)
    then have "queue_inv (?q\<lparr>length_q := js_decr (length_q ?q)\<rparr>)"
      using wf' pre' emp' def lim n1
      by (intro queue_invI [where q = "?q\<lparr>length_q := js_decr (length_q ?q)\<rparr>" and d = ?d
            and n = n]) simp_all
    with False q1 o1 gone db show ?thesis by simp
  qed
qed

text \<open>Removing the least stored id leaves the rest of the stored jobs.\<close>

lemma remove_least:
  assumes qi: "queue_inv q" and nt: "\<not> (idarg = None \<and> queue q = [])"
    and i: "i = (case idarg of None \<Rightarrow> fst (hd (queue q)) | Some k \<Rightarrow> k)"
    and rh: "removes_head idarg q" and mem: "i \<in> fst ` set (stored q)"
  shows "filter (\<lambda>r. fst r \<noteq> i) (stored q) = tl (stored q)"
proof -
  from qi obtain d where db: "db q = Some d" and wf: "wf_db d"
    and pre: "prefix (queue q) (rows d)"
    by (rule queue_invD)
  from mem db obtain r0 rs where rows: "rows d = r0 # rs" by (cases "rows d") auto
  have "i = fst r0"
  proof (cases idarg)
    case None
    with nt obtain j js where w: "queue q = j # js" by (cases "queue q") simp_all
    with pre rows have "j = r0" by simp
    with None i w show ?thesis by simp
  next
    case (Some k)
    with rh i rows db least_job_head [OF qi] show ?thesis
      by (auto simp: removes_head_def split: option.splits)
  qed
  moreover have "sorted_wrt (<) (map fst (r0 # rs))"
    using wf rows by (simp add: wf_db_def)
  then have "distinct (map fst (r0 # rs))" by (rule strict_ids_distinct)
  then have "rs = filter (\<lambda>r. fst r \<noteq> fst r0) (r0 # rs)"
    by (rule tl_filter)
  ultimately show ?thesis using rows db by simp
qed

subsection \<open>What each operation does under the invariant\<close>

lemma done_q_effect:
  assumes qi: "queue_inv q" and dn: "done_q q idarg = (r, e, q1)"
  shows "queue_inv q1" and "last_id q1 = last_id q" and "run q1 = run q"
    and "set (stored q1) \<subseteq> set (stored q)"
    and "r = Returned () \<or> r = Threw TypeError \<or> r = Exited"
    and "r \<noteq> Returned () \<longrightarrow>
           e = [] \<and> empty_q q1 = empty_q q \<and> length_q q1 = length_q q"
    and "r = Returned () \<longrightarrow>
           filter is_next e = (if run q \<and> stored q1 \<noteq> [] then [EvNext (head (stored q1))] else [])
           \<and> (run q \<and> stored q1 \<noteq> [] \<longrightarrow> head (queue q1) = head (stored q1))
           \<and> (run q \<longrightarrow> (empty_q q1 = Some True \<longleftrightarrow> stored q1 = []))
           \<and> (removes_head idarg q \<longrightarrow> stored q \<noteq> [] \<and> stored q1 = tl (stored q))"
proof -
  have "queue_inv q1 \<and> last_id q1 = last_id q \<and> run q1 = run q
    \<and> set (stored q1) \<subseteq> set (stored q)
    \<and> (r = Returned () \<or> r = Threw TypeError \<or> r = Exited)
    \<and> (r \<noteq> Returned () \<longrightarrow> e = [] \<and> empty_q q1 = empty_q q \<and> length_q q1 = length_q q)
    \<and> (r = Returned () \<longrightarrow>
           filter is_next e = (if run q \<and> stored q1 \<noteq> [] then [EvNext (head (stored q1))] else [])
           \<and> (run q \<and> stored q1 \<noteq> [] \<longrightarrow> head (queue q1) = head (stored q1))
           \<and> (run q \<longrightarrow> (empty_q q1 = Some True \<longleftrightarrow> stored q1 = []))
           \<and> (removes_head idarg q \<longrightarrow> stored q \<noteq> [] \<and> stored q1 = tl (stored q)))"
  proof (cases "idarg = None \<and> queue q = []")
    case True
    with dn have "r = Threw TypeError" "e = []" "q1 = q"
      by (auto simp: done_q_def removeJob_def)
    with qi show ?thesis by simp
  next
    case False
    define i where "i = (case idarg of None \<Rightarrow> fst (hd (queue q)) | Some k \<Rightarrow> k)"
    obtain o1 q2 where rj: "removeJob q idarg = (o1, q2)" by (cases "removeJob q idarg")
    note eff = removeJob_effect [OF qi False i_def rj]
    from eff(6) show ?thesis
    proof
      assume a: "o1 = Fulfilled i \<and> i \<in> fst ` set (stored q)
        \<and> queue_inv (q2\<lparr>length_q := js_decr (length_q q2)\<rparr>)"
      let ?q3 = "q2\<lparr>length_q := js_decr (length_q q2)\<rparr>"
      obtain r3 e3 q4 where tr: "trigger_next ?q3 = (r3, e3, q4)" by (cases "trigger_next ?q3")
      from a have qi3: "queue_inv ?q3" by simp
      note t = trigger_next_effect [OF qi3 tr]
      have st3: "stored ?q3 = stored q2" "last_id ?q3 = last_id q2"
        by (simp_all add: stored_def last_id_def)
      from dn rj a tr t(1) have res: "r = Returned ()" "e = e3" "q1 = q4"
        by (simp_all add: done_q_def)
      have tl: "removes_head idarg q \<longrightarrow> stored q \<noteq> [] \<and> stored q2 = tl (stored q)"
        using remove_least [OF qi False i_def] a eff(1) by auto
      show ?thesis
        using res t st3 eff(1-4) tl by auto
    next
      assume a: "o1 = Rejected (JError (NotRemoved i)) \<and> i \<notin> fst ` set (stored q)
        \<and> queue_inv q2"
      with dn rj have "r = Exited" "e = []" "q1 = q2" by (simp_all add: done_q_def)
      with a eff(1-5) show ?thesis by auto
    qed
  qed
  then show "queue_inv q1" and "last_id q1 = last_id q" and "run q1 = run q"
    and "set (stored q1) \<subseteq> set (stored q)"
    and "r = Returned () \<or> r = Threw TypeError \<or> r = Exited"
    and "r \<noteq> Returned () \<longrightarrow>
           e = [] \<and> empty_q q1 = empty_q q \<and> length_q q1 = length_q q"
    and "r = Returned () \<longrightarrow>
           filter is_next e = (if run q \<and> stored q1 \<noteq> [] then [EvNext (head (stored q1))] else [])
           \<and> (run q \<and> stored q1 \<noteq> [] \<longrightarrow> head (queue q1) = head (stored q1))
           \<and> (run q \<longrightarrow> (empty_q q1 = Some True \<longleftrightarrow> stored q1 = []))
           \<and> (removes_head idarg q \<longrightarrow> stored q \<noteq> [] \<and> stored q1 = tl (stored q))"
    by blast+
qed

lemma delete_q_effect:
  assumes qi: "queue_inv q" and dl: "delete_q q idarg = (r, e, q1)"
  shows "queue_inv q1" and "last_id q1 = last_id q" and "run q1 = run q"
    and "set (stored q1) \<subseteq> set (stored q)" and "filter is_next e = []"
proof -
  have "queue_inv q1 \<and> last_id q1 = last_id q \<and> run q1 = run q
    \<and> set (stored q1) \<subseteq> set (stored q) \<and> filter is_next e = []"
  proof (cases "idarg = None \<and> queue q = []")
    case True
    with dl have "e = []" "q1 = q" by (auto simp: delete_q_def removeJob_def)
    with qi show ?thesis by simp
  next
    case False
    define i where "i = (case idarg of None \<Rightarrow> fst (hd (queue q)) | Some k \<Rightarrow> k)"
    obtain o1 q2 where rj: "removeJob q idarg = (o1, q2)" by (cases "removeJob q idarg")
    note eff = removeJob_effect [OF qi False i_def rj]
    from eff(6) show ?thesis
    proof
      assume a: "o1 = Fulfilled i \<and> i \<in> fst ` set (stored q)
        \<and> queue_inv (q2\<lparr>length_q := js_decr (length_q q2)\<rparr>)"
      with dl rj have "e = [EvDelete idarg]" "q1 = q2\<lparr>length_q := js_decr (length_q q2)\<rparr>"
        by (simp_all add: delete_q_def)
      with a eff(1-3) show ?thesis by (auto simp: stored_def last_id_def)
    next
      assume a: "o1 = Rejected (JError (NotRemoved i)) \<and> i \<notin> fst ` set (stored q)
        \<and> queue_inv q2"
      with dl rj have "e = []" "q1 = q2" by (simp_all add: delete_q_def)
      with a eff(1-3) show ?thesis by auto
    qed
  qed
  then show "queue_inv q1" and "last_id q1 = last_id q" and "run q1 = run q"
    and "set (stored q1) \<subseteq> set (stored q)" and "filter is_next e = []"
    by blast+
qed

lemma start_q_effect:
  assumes qi: "queue_inv q" and st: "start_q q = (r, e, q1)"
  shows "queue_inv q1" and "stored q1 = stored q" and "last_id q1 = last_id q" and "run q1"
    and "filter is_next e = (if \<not> run q \<and> stored q \<noteq> [] then [EvNext (head (stored q))] else [])"
    and "\<not> run q \<and> stored q \<noteq> [] \<longrightarrow> head (queue q1) = head (stored q)"
    and "\<not> run q \<longrightarrow> (empty_q q1 = Some True \<longleftrightarrow> stored q = [])"
    and "run q \<longrightarrow> q1 = q"
proof -
  from qi obtain d where db: "db q = Some d" by (rule queue_invD)
  have "queue_inv q1 \<and> stored q1 = stored q \<and> last_id q1 = last_id q \<and> run q1
    \<and> filter is_next e = (if \<not> run q \<and> stored q \<noteq> [] then [EvNext (head (stored q))] else [])
    \<and> (\<not> run q \<and> stored q \<noteq> [] \<longrightarrow> head (queue q1) = head (stored q))
    \<and> (\<not> run q \<longrightarrow> (empty_q q1 = Some True \<longleftrightarrow> stored q = []))
    \<and> (run q \<longrightarrow> q1 = q)"
  proof (cases "run q")
    case True
    with st db have "e = []" "q1 = q" by (simp_all add: start_q_def)
    with qi True show ?thesis by simp
  next
    case False
    let ?q = "q\<lparr>run := True\<rparr>"
    from False st db have tr: "trigger_next ?q = (r, e, q1)" by (simp add: start_q_def)
    have qi': "queue_inv ?q" using qi by (simp add: queue_inv_def split: option.splits)
    note t = trigger_next_effect [OF qi' tr]
    have "stored ?q = stored q" "last_id ?q = last_id q"
      by (simp_all add: stored_def last_id_def)
    with t False show ?thesis by auto
  qed
  then show "queue_inv q1" and "stored q1 = stored q" and "last_id q1 = last_id q" and "run q1"
    and "filter is_next e = (if \<not> run q \<and> stored q \<noteq> [] then [EvNext (head (stored q))] else [])"
    and "\<not> run q \<and> stored q \<noteq> [] \<longrightarrow> head (queue q1) = head (stored q)"
    and "\<not> run q \<longrightarrow> (empty_q q1 = Some True \<longleftrightarrow> stored q = [])"
    and "run q \<longrightarrow> q1 = q"
    by blast+
qed

lemma insert_inv:
  assumes qi: "queue_inv q" and db: "db q = Some d"
    and e: "e = Some False \<or> e = empty_q q \<and> empty_q q \<noteq> Some True"
  shows "queue_inv (q\<lparr>db := Some (db_insert t d), length_q := js_incr (length_q q), empty_q := e\<rparr>)"
proof -
  from qi db obtain n where wf: "wf_db d"
    and len: "length_q q = Some (int (length (rows d)))" and pre: "prefix (queue q) (rows d)"
    and def: "empty_q q \<noteq> None" and lim: "sql_integer (batchSize q) = Some n" and n1: "1 \<le> n"
    by (auto elim: queue_invD)
  let ?q = "q\<lparr>db := Some (db_insert t d), length_q := js_incr (length_q q), empty_q := e\<rparr>"
  have "\<forall>x\<in>set (rows d). fst x < Suc (seq d)"
    using wf by (auto simp: wf_db_def list_all_iff less_Suc_eq_le)
  then have wf': "wf_db (db_insert t d)"
    using wf by (auto simp: wf_db_def db_insert_def sorted_wrt_append list_all_iff)
  show ?thesis
    using wf' len pre def lim n1 e
    by (intro queue_invI [where q = ?q and d = "db_insert t d" and n = n])
       (auto simp: db_insert_def js_incr_def)
qed

lemma add_q_effect:
  assumes qi: "queue_inv q" and ad: "add_q q job = (r, e, q1)"
  shows "queue_inv q1" and "r = Fulfilled JUndefined"
    and "stored q1 = stored q @ [(Suc (last_id q), JSON_stringify job)]"
    and "last_id q1 = Suc (last_id q)" and "run q1 = run q" and "empty_q q1 = Some False"
    and "filter is_next e =
           (if run q \<and> empty_q q = Some True then [EvNext (head (stored q1))] else [])"
    and "run q \<and> empty_q q = Some True \<longrightarrow> head (queue q1) = head (stored q1)"
    and "empty_q q = Some True \<longrightarrow> stored q = []"
proof -
  from qi obtain d where db: "db q = Some d"
    and emp: "empty_q q = Some True \<longrightarrow> rows d = []" and def: "empty_q q \<noteq> None"
    by (rule queue_invD)
  let ?t = "JSON_stringify job"
  let ?q2 = "q\<lparr>db := Some (db_insert ?t d), length_q := js_incr (length_q q)\<rparr>"
  obtain r3 e3 q3 where oa: "on_add ?q2 = (r3, e3, q3)" by (cases "on_add ?q2")
  have res: "e = EvAdd JUndefined job # e3" "q1 = q3"
    "r3 = Returned () \<longrightarrow> r = Fulfilled JUndefined"
    using ad db oa by (cases r3; auto simp: add_q_def Let_def)+
  have st: "stored q = rows d" "last_id q = seq d" using db by simp_all
  have "queue_inv q3 \<and> r3 = Returned ()
    \<and> stored q3 = rows d @ [(Suc (seq d), ?t)] \<and> last_id q3 = Suc (seq d)
    \<and> run q3 = run q \<and> empty_q q3 = Some False
    \<and> filter is_next e3 = (if run q \<and> empty_q q = Some True then [EvNext (head (stored q3))] else [])
    \<and> (run q \<and> empty_q q = Some True \<longrightarrow> head (queue q3) = head (stored q3))"
  proof (cases "empty_q q = Some True")
    case True
    let ?q1 = "q\<lparr>db := Some (db_insert ?t d), length_q := js_incr (length_q q),
                  empty_q := Some False\<rparr>"
    have i1: "queue_inv ?q1" using insert_inv [OF qi db, where e = "Some False"] by simp
    have s1: "stored ?q1 = rows d @ [(Suc (seq d), ?t)]" "last_id ?q1 = Suc (seq d)"
      by (simp_all add: stored_def last_id_def db_insert_def)
    show ?thesis
    proof (cases "run q")
      case run: True
      with True oa have tr: "trigger_next ?q1 = (r3, e3, q3)" by (simp add: on_add_def)
      note t = trigger_next_effect [OF i1 tr]
      from t(2) have "empty_q q3 \<noteq> None" by (auto elim: queue_invD)
      moreover from t(8) s1 run have "empty_q q3 \<noteq> Some True" by simp
      ultimately have "empty_q q3 = Some False" by (cases "empty_q q3") auto
      with t s1 run True show ?thesis by auto
    next
      case False
      with True oa have "r3 = Returned ()" "e3 = []" "q3 = ?q1" by (simp_all add: on_add_def)
      with i1 s1 False show ?thesis by simp
    qed
  next
    case False
    have eq: "?q2 = q\<lparr>db := Some (db_insert ?t d), length_q := js_incr (length_q q),
                  empty_q := empty_q q\<rparr>"
      by simp
    have i2: "queue_inv ?q2"
      using insert_inv [OF qi db, where e = "empty_q q" and t = ?t] False eq by simp
    have s2: "stored ?q2 = rows d @ [(Suc (seq d), ?t)]" "last_id ?q2 = Suc (seq d)"
      by (simp_all add: stored_def last_id_def db_insert_def)
    from False oa have "r3 = Returned ()" "e3 = []" "q3 = ?q2" by (simp_all add: on_add_def)
    moreover from False def have "empty_q q = Some False" by (cases "empty_q q") auto
    ultimately show ?thesis using i2 s2 False by simp
  qed
  with res st emp show "queue_inv q1" and "r = Fulfilled JUndefined"
    and "stored q1 = stored q @ [(Suc (last_id q), JSON_stringify job)]"
    and "last_id q1 = Suc (last_id q)" and "run q1 = run q" and "empty_q q1 = Some False"
    and "filter is_next e =
           (if run q \<and> empty_q q = Some True then [EvNext (head (stored q1))] else [])"
    and "run q \<and> empty_q q = Some True \<longrightarrow> head (queue q1) = head (stored q1)"
    and "empty_q q = Some True \<longrightarrow> stored q = []"
    by auto
qed

subsection \<open>Operations one by one\<close>

lemma apply_op_cases:
  "apply_op (Add job) q = (s, e, q1) \<longleftrightarrow> (\<exists>r. add_q q job = (r, e, q1) \<and> s = status_of r)"
  "apply_op (Done idarg) q = (s, e, q1) \<longleftrightarrow> (\<exists>r. done_q q idarg = (r, e, q1) \<and> s = status_of r)"
  "apply_op (Delete idarg) q = (s, e, q1)
     \<longleftrightarrow> (\<exists>r. delete_q q idarg = (r, e, q1) \<and> s = status_of r)"
  "apply_op Start q = (s, e, q1) \<longleftrightarrow> (\<exists>r. start_q q = (r, e, q1) \<and> s = status_of r)"
  "apply_op Stop q = (s, e, q1) \<longleftrightarrow> s = Succeeded \<and> e = [] \<and> q1 = q\<lparr>run := False\<rparr>"
  by (auto simp: apply_op_def stop_q_def split: prod.splits)

lemma queue_inv_run [simp]: "queue_inv (q\<lparr>run := b\<rparr>) = queue_inv q"
  by (simp add: queue_inv_def split: option.splits)

lemma stored_run [simp]: "stored (q\<lparr>run := b\<rparr>) = stored q"
  and last_id_run [simp]: "last_id (q\<lparr>run := b\<rparr>) = last_id q"
  by (simp_all add: stored_def last_id_def)

lemma apply_op_inv:
  assumes "queue_inv q" and "apply_op x q = (s, e, q1)"
  shows "queue_inv q1"
  using assms
  by (cases x)
     (auto simp: apply_op_cases
       dest: add_q_effect(1) done_q_effect(1) delete_q_effect(1) start_q_effect(1))

lemma apply_op_announced:
  assumes qi: "queue_inv q" and ap: "apply_op x q = (s, e, q1)" and an: "announced a q"
  shows "announced a q1"
proof -
  have "last_id q \<le> last_id q1
      \<and> (\<forall>r\<in>set (stored q1). r \<in> set (stored q) \<or> last_id q < fst r)"
  proof (cases x)
    case (Add job)
    with ap obtain r where "add_q q job = (r, e, q1)" by (auto simp: apply_op_cases)
    from add_q_effect(3,4) [OF qi this] show ?thesis by auto
  next
    case (Done idarg)
    with ap obtain r where "done_q q idarg = (r, e, q1)" by (auto simp: apply_op_cases)
    from done_q_effect(2,4) [OF qi this] show ?thesis by auto
  next
    case (Delete idarg)
    with ap obtain r where "delete_q q idarg = (r, e, q1)" by (auto simp: apply_op_cases)
    from delete_q_effect(2,4) [OF qi this] show ?thesis by auto
  next
    case Start
    with ap obtain r where "start_q q = (r, e, q1)" by (auto simp: apply_op_cases)
    from start_q_effect(2,3) [OF qi this] show ?thesis by auto
  next
    case Stop
    with ap show ?thesis by (auto simp: apply_op_cases)
  qed
  with an show ?thesis
    by (auto simp: announced_def list_all_iff intro: le_trans less_imp_le)
qed

lemma status_of_done:
  "r = Returned () \<or> r = Threw TypeError \<or> r = Exited
     \<Longrightarrow> status_of r = Succeeded \<longleftrightarrow> r = Returned ()"
  by (auto simp: status_of_def)

text \<open>Which operation announces, and what.\<close>

lemma apply_op_nexts:
  assumes qi: "queue_inv q" and ap: "apply_op x q = (s, e, q1)"
  shows "filter is_next e = (if announces x q then [EvNext (least_job q1)] else [])"
    and "announces x q \<longrightarrow> head (queue q1) = least_job q1"
proof -
  have lj: "least_job q1 = head (stored q1)"
    using apply_op_inv [OF qi ap] by (rule least_job_head)
  have an: "announces x q \<longleftrightarrow>
      (case x of Start \<Rightarrow> \<not> run q | Add job \<Rightarrow> run q \<and> empty_q q = Some True
       | Done idarg \<Rightarrow> run q \<and> s = Succeeded | _ \<Rightarrow> False) \<and> stored q1 \<noteq> []"
    using ap lj by (auto simp: announces_def isStarted_def after_def split: op.splits)
  have "filter is_next e = (if announces x q then [EvNext (least_job q1)] else [])
      \<and> (announces x q \<longrightarrow> head (queue q1) = least_job q1)"
  proof (cases x)
    case (Add job)
    with ap obtain r where a: "add_q q job = (r, e, q1)" by (auto simp: apply_op_cases)
    note eff = add_q_effect [OF qi a]
    from eff(3) have "stored q1 \<noteq> []" by simp
    with eff(7,8) an lj Add show ?thesis by simp
  next
    case (Done idarg)
    with ap obtain r where a: "done_q q idarg = (r, e, q1)" and s: "s = status_of r"
      by (auto simp: apply_op_cases)
    note eff = done_q_effect [OF qi a]
    from status_of_done [OF eff(5)] s have "s = Succeeded \<longleftrightarrow> r = Returned ()" by simp
    with eff(6,7) an lj Done show ?thesis by (cases "r = Returned ()") auto
  next
    case (Delete idarg)
    with ap obtain r where a: "delete_q q idarg = (r, e, q1)" by (auto simp: apply_op_cases)
    from delete_q_effect(5) [OF qi a] an Delete show ?thesis by simp
  next
    case Start
    with ap obtain r where a: "start_q q = (r, e, q1)" by (auto simp: apply_op_cases)
    note eff = start_q_effect [OF qi a]
    with an lj Start show ?thesis by auto
  next
    case Stop
    with ap an show ?thesis by (auto simp: apply_op_cases)
  qed
  then show "filter is_next e = (if announces x q then [EvNext (least_job q1)] else [])"
    and "announces x q \<longrightarrow> head (queue q1) = least_job q1"
    by blast+
qed

lemma announced_least:
  assumes qi: "queue_inv q" and lj: "least_job q = Some j"
  shows "announced (fst j) q"
proof -
  from qi obtain d where db: "db q = Some d" and wf: "wf_db d" by (rule queue_invD)
  from lj least_job_head [OF qi] db obtain rs where rows: "rows d = j # rs"
    by (cases "rows d") simp_all
  have "fst j \<le> seq d" using wf rows by (simp add: wf_db_def)
  moreover have "list_all (\<lambda>x. fst j \<le> fst x) (rows d)"
    using wf rows strict_ids_head_least [of j rs] by (simp add: wf_db_def)
  ultimately show ?thesis using db by (simp add: announced_def)
qed

lemma announced_below_least:
  assumes qi: "queue_inv q" and lj: "least_job q = Some j" and an: "announced a q"
  shows "a \<le> fst j"
proof -
  from lj least_job_head [OF qi] have "j \<in> set (stored q)"
    by (cases "stored q") simp_all
  with an show ?thesis by (auto simp: announced_def list_all_iff)
qed

text \<open>
  An announcement made after an add to an empty queue, or after the least job has been
  removed, is of a job above everything announced before.
\<close>

lemma apply_op_fresh:
  assumes qi: "queue_inv q" and ap: "apply_op x q = (s, e, q1)"
    and ann: "announces x q" and ns: "x \<noteq> Start"
    and rh: "\<forall>idarg. x = Done idarg \<longrightarrow> removes_head idarg q"
    and an: "announced a q" and lj: "least_job q1 = Some j"
  shows "a < fst j"
proof -
  have lj1: "head (stored q1) = Some j"
    using least_job_head [OF apply_op_inv [OF qi ap]] lj by simp
  from qi obtain d where db: "db q = Some d" and wf: "wf_db d" by (rule queue_invD)
  show ?thesis
  proof (cases x)
    case (Add job)
    with ap obtain r where a: "add_q q job = (r, e, q1)" by (auto simp: apply_op_cases)
    note eff = add_q_effect [OF qi a]
    from ann Add have "empty_q q = Some True" by (simp add: announces_def)
    with eff(3,9) lj1 have "fst j = Suc (last_id q)" by auto
    with an show ?thesis by (simp add: announced_def)
  next
    case (Done idarg)
    with ap obtain r where a: "done_q q idarg = (r, e, q1)" and s: "s = status_of r"
      by (auto simp: apply_op_cases)
    note eff = done_q_effect [OF qi a]
    from ann Done ap have "s = Succeeded" by (simp add: announces_def)
    with status_of_done [OF eff(5)] s have "r = Returned ()" by simp
    with eff(7) rh Done have ne: "stored q \<noteq> []" and tl: "stored q1 = tl (stored q)" by auto
    from ne obtain r0 rs where rows: "stored q = r0 # rs" by (cases "stored q") simp_all
    with tl lj1 obtain rs' where rs: "rs = j # rs'" by (cases rs) simp_all
    have "sorted_wrt (<) (map fst (stored q))" using wf db by (simp add: wf_db_def)
    with rows rs have "fst r0 < fst j" by simp
    moreover from an rows have "a \<le> fst r0" by (simp add: announced_def)
    ultimately show ?thesis by simp
  next
    case (Delete idarg)
    with ann show ?thesis by (simp add: announces_def)
  next
    case Start
    with ns show ?thesis by simp
  next
    case Stop
    with ann show ?thesis by (simp add: announces_def)
  qed
qed



lemma apply_op_run:
  assumes qi: "queue_inv q" and ap: "apply_op x q = (s, e, q1)" and "run q1"
  shows "run q \<or> x = Start"
proof (cases x)
  case (Add job)
  with ap obtain r where a: "add_q q job = (r, e, q1)" by (auto simp: apply_op_cases)
  from add_q_effect(5) [OF qi a] assms(3) show ?thesis by simp
next
  case (Done idarg)
  with ap obtain r where a: "done_q q idarg = (r, e, q1)" by (auto simp: apply_op_cases)
  from done_q_effect(3) [OF qi a] assms(3) show ?thesis by simp
next
  case (Delete idarg)
  with ap obtain r where a: "delete_q q idarg = (r, e, q1)" by (auto simp: apply_op_cases)
  from delete_q_effect(3) [OF qi a] assms(3) show ?thesis by simp
next
  case Start
  then show ?thesis by simp
next
  case Stop
  with ap assms(3) show ?thesis by (auto simp: apply_op_cases)
qed

subsection \<open>Sequences of operations\<close>

lemma next_ids_append: "next_ids (xs @ ys) = next_ids xs @ next_ids ys"
  by (induction xs rule: next_ids.induct) simp_all

lemma run_ops_inv:
  assumes "queue_inv q" and "run_ops xs q = (ss, evs, q')"
  shows "queue_inv q'"
  using assms
proof (induction xs arbitrary: q ss evs)
  case Nil
  then show ?case by simp
next
  case (Cons x xs)
  obtain s e1 q1 where a: "apply_op x q = (s, e1, q1)" by (cases "apply_op x q")
  note i1 = apply_op_inv [OF Cons.prems(1) a]
  show ?case
  proof (cases "s = Died")
    case True
    with Cons.prems(2) a i1 show ?thesis by simp
  next
    case False
    obtain ss2 e2 q2 where r: "run_ops xs q1 = (ss2, e2, q2)" by (cases "run_ops xs q1")
    with Cons.prems(2) a False have q2: "q2 = q'" by simp
    from Cons.IH [OF i1 r [unfolded q2]] show ?thesis .
  qed
qed

text \<open>The ids one operation announces: none, or the least stored id.\<close>

lemma apply_op_next_ids:
  assumes qi: "queue_inv q" and ap: "apply_op x q = (s, e, q1)"
  shows "next_ids e = (if announces x q then [fst (the (least_job q1))] else [])"
    and "announces x q \<longrightarrow> least_job q1 \<noteq> None"
    and "EvNext None \<notin> set e"
proof -
  note nx = apply_op_nexts(1) [OF qi ap]
  have ne: "announces x q \<longrightarrow> least_job q1 \<noteq> None"
    using ap by (simp add: announces_def after_def)
  then show "announces x q \<longrightarrow> least_job q1 \<noteq> None" .
  have "next_ids e = next_ids (filter is_next e)" by (simp add: next_ids_filter)
  with nx ne show "next_ids e = (if announces x q then [fst (the (least_job q1))] else [])"
    by auto
  have "EvNext None \<notin> set (filter is_next e)" using nx ne by auto
  then show "EvNext None \<notin> set e" by simp
qed

lemma run_ops_sorted:
  assumes "queue_inv q" and "sorted anns" and "\<forall>a\<in>set anns. announced a q"
    and "run_ops xs q = (ss, evs, q')"
  shows "sorted (anns @ next_ids evs) \<and> EvNext None \<notin> set evs"
  using assms
proof (induction xs arbitrary: q anns ss evs)
  case Nil
  then show ?case by simp
next
  case (Cons x xs)
  obtain s e1 q1 where a: "apply_op x q = (s, e1, q1)" by (cases "apply_op x q")
  note i1 = apply_op_inv [OF Cons.prems(1) a]
  note nx = apply_op_next_ids [OF Cons.prems(1) a]
  have an1: "\<forall>a\<in>set anns. announced a q1"
    using Cons.prems(3) apply_op_announced [OF Cons.prems(1) a] by blast
  have step: "sorted (anns @ next_ids e1) \<and> (\<forall>a\<in>set (anns @ next_ids e1). announced a q1)"
  proof (cases "announces x q")
    case True
    with nx(2) obtain j where lj: "least_job q1 = Some j" by auto
    with nx(1) True have ids: "next_ids e1 = [fst j]" by simp
    have "\<forall>a\<in>set anns. a \<le> fst j"
      using an1 announced_below_least [OF i1 lj] by blast
    with Cons.prems(2) an1 announced_least [OF i1 lj] ids show ?thesis
      by (auto simp: sorted_append)
  next
    case False
    with nx(1) Cons.prems(2) an1 show ?thesis by simp
  qed
  show ?case
  proof (cases "s = Died")
    case True
    with Cons.prems(4) a have "evs = e1" by simp
    with step nx(3) show ?thesis by simp
  next
    case False
    obtain ss2 e2 q2 where r: "run_ops xs q1 = (ss2, e2, q2)" by (cases "run_ops xs q1")
    with Cons.prems(4) a False have res: "evs = e1 @ e2" "q2 = q'" by simp_all
    from Cons.IH [OF i1 _ _ r [unfolded res(2)], of "anns @ next_ids e1"] step
    have "sorted ((anns @ next_ids e1) @ next_ids e2) \<and> EvNext None \<notin> set e2" by blast
    with res(1) nx(3) show ?thesis by (simp add: next_ids_append)
  qed
qed

lemma run_ops_strict:
  assumes "queue_inv q" and "sorted_wrt (<) anns" and "\<forall>a\<in>set anns. announced a q"
    and "anns \<noteq> [] \<longrightarrow> started" and "run q \<longrightarrow> started"
    and "disciplined started xs q" and "run_ops xs q = (ss, evs, q')"
  shows "sorted_wrt (<) (anns @ next_ids evs)"
  using assms
proof (induction xs arbitrary: q anns started ss evs)
  case Nil
  then show ?case by simp
next
  case (Cons x xs)
  obtain s e1 q1 where a: "apply_op x q = (s, e1, q1)" by (cases "apply_op x q")
  note i1 = apply_op_inv [OF Cons.prems(1) a]
  note nx = apply_op_next_ids [OF Cons.prems(1) a]
  from Cons.prems(6) a
  have ok: "\<forall>idarg. x = Done idarg \<longrightarrow> removes_head idarg q"
    and st: "x = Start \<longrightarrow> \<not> started \<or> run q"
    and rest: "disciplined (started \<or> x = Start) xs q1"
    by (auto simp: after_def isStarted_def split: op.splits)
  have an1: "\<forall>a\<in>set anns. announced a q1"
    using Cons.prems(3) apply_op_announced [OF Cons.prems(1) a] by blast
  have step: "sorted_wrt (<) (anns @ next_ids e1)
      \<and> (\<forall>a\<in>set (anns @ next_ids e1). announced a q1)
      \<and> (anns @ next_ids e1 \<noteq> [] \<longrightarrow> started \<or> x = Start)"
  proof (cases "announces x q")
    case True
    with nx(2) obtain j where lj: "least_job q1 = Some j" by auto
    with nx(1) True have ids: "next_ids e1 = [fst j]" by simp
    have "\<forall>a\<in>set anns. a < fst j"
    proof (cases "x = Start")
      case True
      with \<open>announces x q\<close> have "\<not> run q" by (simp add: announces_def isStarted_def)
      with st True Cons.prems(4) have "anns = []" by auto
      then show ?thesis by simp
    next
      case False
      show ?thesis
        using apply_op_fresh [OF Cons.prems(1) a True False ok _ lj] Cons.prems(3) by blast
    qed
    moreover have "started \<or> x = Start"
      using True Cons.prems(5) by (auto simp: announces_def isStarted_def split: op.splits)
    ultimately show ?thesis
      using Cons.prems(2) an1 announced_least [OF i1 lj] ids
      by (auto simp: sorted_wrt_append)
  next
    case False
    with nx(1) Cons.prems(2,4) an1 show ?thesis by simp
  qed
  have run1: "run q1 \<longrightarrow> started \<or> x = Start"
    using apply_op_run [OF Cons.prems(1) a] Cons.prems(5) by blast
  show ?case
  proof (cases "s = Died")
    case True
    with Cons.prems(7) a have "evs = e1" by simp
    with step show ?thesis by simp
  next
    case False
    obtain ss2 e2 q2 where r: "run_ops xs q1 = (ss2, e2, q2)" by (cases "run_ops xs q1")
    with Cons.prems(7) a False have res: "evs = e1 @ e2" "q2 = q'" by simp_all
    from Cons.IH [OF i1 _ _ _ run1 rest r [unfolded res(2)], of "anns @ next_ids e1"] step
    have "sorted_wrt (<) ((anns @ next_ids e1) @ next_ids e2)" by blast
    with res(1) show ?thesis by (simp add: next_ids_append)
  qed
qed


subsection \<open>The queue after the constructor and open\<close>

lemma constructor_fields:
  assumes "PersistentQueue f bs = Returned q0"
  shows "\<not> js_less_than (batchSize q0) 1" and "\<not> run q0"
  using assms
  by (auto simp: PersistentQueue_def initial_pq_def Let_def typeof_def
      split: if_splits js_value.splits)

lemma sql_integer_at_least_one:
  assumes "\<not> js_less_than x 1" and "sql_integer x = Some n"
  shows "1 \<le> n"
proof (cases x)
  case (Finite r)
  with assms have "1 \<le> r" and "n = \<lfloor>r\<rfloor>"
    by (auto simp: sql_integer_def split: if_splits)
  then show ?thesis by (simp add: le_floor_iff)
qed (use assms in \<open>simp_all add: sql_integer_def\<close>)

lemma open_q_inv:
  assumes wf: "wf_db store" and bs: "\<not> js_less_than (batchSize q0) 1"
    and op: "open_q store q0 = (Fulfilled jobs, evs0, q)"
  shows "queue_inv q" and "run q = run q0"
proof -
  obtain n where lim: "sql_integer (batchSize q0) = Some n"
    using op
    by (cases "sql_integer (batchSize q0)")
       (auto simp: open_q_def countQueue_def hydrateQueue_def Let_def)
  note n1 = sql_integer_at_least_one [OF bs lim]
  let ?w = "take (nat n) (rows store)"
  have srt: "sort_key fst (rows store) = rows store"
    using wf by (simp add: wf_db_def strict_ids_sort)
  have res: "q = q0\<lparr>db := Some (db_schema store),
                    length_q := Some (int (length (rows store))),
                    queue := ?w, empty_q := Some (?w = []), opened := True\<rparr>"
    using op lim n1 srt
    by (auto simp: open_q_def countQueue_def hydrateQueue_def db_select_limit_def
        db_schema_def parse_rows Let_def)
  show "run q = run q0" unfolding res by simp
  have "?w = [] \<longrightarrow> rows store = []" using n1 by (cases "rows store") (simp_all add: take_Cons')
  then show "queue_inv q"
    using wf lim n1 unfolding res
    by (intro queue_invI [where d = "db_schema store" and n = n])
       (simp_all add: db_schema_def wf_db_def take_is_prefix)
qed

lemma opened_queue:
  assumes "PersistentQueue f bs = Returned q0" and "wf_db store"
    and "open_q store q0 = (Fulfilled jobs, evs0, q)"
  shows "queue_inv q" and "\<not> run q"
  using open_q_inv [OF assms(2) constructor_fields(1) [OF assms(1)] assms(3)]
    constructor_fields(2) [OF assms(1)]
  by simp_all


lemma small_queue_eq:
  "small_queue =
     \<lparr>debug = False, empty_q = Some True, dbPath = JString '':memory:'', batchSize = Finite 2,
      queue = [], length_q = Some 0,
      db = Some \<lparr>rows = [], seq = 0, counter = 0, vacuums = 0\<rparr>,
      opened = True, run = False\<rparr>"
  by (simp add: small_queue_def after_def open_q_def initial_pq_def empty_db_def db_schema_def
      countQueue_def hydrateQueue_def db_select_limit_def sql_integer_def)

lemma open_small_queue:
  "open_q empty_db (initial_pq (JString '':memory:'') (Finite 2))
     = (Fulfilled [], [EvOpen], small_queue)"
  by (simp add: small_queue_eq open_q_def initial_pq_def empty_db_def db_schema_def
      countQueue_def hydrateQueue_def db_select_limit_def sql_integer_def)

lemma construct_small_queue:
  "PersistentQueue (JString []) (JNumber (Finite 2))
     = Returned (initial_pq (JString '':memory:'') (Finite 2))"
  by (simp add: PersistentQueue_def typeof_def)

lemma wf_empty_db: "wf_db empty_db"
  by (simp add: wf_db_def empty_db_def)

lemmas run_defs = op_defs Let_def events_of_def after_def least_job_def stored_def
  removes_head_def announces_def isStarted_def isEmpty_def getLength_def is_delete_def


section \<open>The order of the announcements\<close>

text \<open>
  C2, as stated, fails: the order is not strict. Jobs are added, the queue is started and
  announces job 1; then \<open>done(2)\<close> removes job 2 and triggers again, or the queue is
  stopped and started again, and job 1, still the head of the window, is announced a
  second time.
\<close>

theorem next_ids_repeat_counterexample:
  "next_ids (events_of (run_ops [Add ''a'', Add ''b'', Start, Done (Some 2)] fresh_queue)) = [1, 1]
   \<and> \<not> sorted_wrt (<)
         (next_ids (events_of (run_ops [Add ''a'', Add ''b'', Start, Done (Some 2)] fresh_queue)))
   \<and> next_ids (events_of (run_ops [Add ''a'', Start, Stop, Start] fresh_queue)) = [1, 1]
   \<and> \<not> sorted_wrt (<)
         (next_ids (events_of (run_ops [Add ''a'', Start, Stop, Start] fresh_queue)))"
  by (simp add: fresh_queue_eq events_of_def op_defs Let_def)

text \<open>
  C2, amended. Take a queue the constructor built, opened on a well-formed store, and any
  sequence of add, done, delete, start and stop operations, each complete before the
  next begins.
  \<^item> The ids of the jobs announced by \<open>'next'\<close> are in ascending order, and every
    \<open>'next'\<close> carries a job, never \<open>undefined\<close>.
  \<^item> The order is strictly ascending when every \<open>done\<close> acknowledges the head (it is
    called without an id, or with the least stored id) and the queue is not restarted
    (\<open>start\<close> is not called on a stopped queue that was started before).
  \<^item> In the state the sequence leads to, an operation emits \<open>'next'\<close> at most once,
    and exactly then when a job is stored afterwards and the operation is \<open>start\<close> on
    a stopped queue, \<open>add\<close> on a running queue flagged empty, or a successful
    \<open>done\<close> on a running queue. The job it carries is the stored job with the least
    id, which is then the head of the window: it is announced again by every such
    operation until it is removed.
\<close>

theorem next_announcements:
  assumes "PersistentQueue f bs = Returned q0" and "wf_db store"
    and "open_q store q0 = (Fulfilled jobs, evs0, q)" and "run_ops xs q = (ss, evs, q')"
  shows "sorted (next_ids evs) \<and> EvNext None \<notin> set evs
     \<and> (disciplined False xs q \<longrightarrow> sorted_wrt (<) (next_ids evs))
     \<and> (\<forall>x. filter is_next (events_of (apply_op x q'))
               = (if announces x q' then [EvNext (least_job (after (apply_op x q')))] else [])
            \<and> (announces x q' \<longrightarrow>
                 least_job (after (apply_op x q')) \<noteq> None
                 \<and> head (queue (after (apply_op x q'))) = least_job (after (apply_op x q'))))"
proof -
  note start = opened_queue [OF assms(1,2,3)]
  have a: "sorted (next_ids evs) \<and> EvNext None \<notin> set evs"
    using run_ops_sorted [OF start(1) _ _ assms(4), of "[]"] by simp
  have b: "disciplined False xs q \<longrightarrow> sorted_wrt (<) (next_ids evs)"
    using run_ops_strict [OF start(1) _ _ _ _ _ assms(4), of "[]" False] start(2) by simp
  have qi: "queue_inv q'" using run_ops_inv [OF start(1) assms(4)] .
  have c: "filter is_next (events_of (apply_op x q'))
               = (if announces x q' then [EvNext (least_job (after (apply_op x q')))] else [])
            \<and> (announces x q' \<longrightarrow>
                 least_job (after (apply_op x q')) \<noteq> None
                 \<and> head (queue (after (apply_op x q'))) = least_job (after (apply_op x q')))"
    for x
  proof -
    obtain s e q1 where ap: "apply_op x q' = (s, e, q1)" by (cases "apply_op x q'")
    from apply_op_nexts [OF qi ap] apply_op_next_ids(2) [OF qi ap] ap show ?thesis
      by (simp add: events_of_def after_def)
  qed
  from a b c show ?thesis by blast
qed

text \<open>
  A consumer that acknowledges each job, once by its id: the four jobs are announced in
  strict order; an add to the drained, running queue announces the new job.
\<close>

theorem next_announcements_witness:
  "PersistentQueue (JString []) (JNumber (Finite 2))
     = Returned (initial_pq (JString '':memory:'') (Finite 2))
   \<and> wf_db empty_db
   \<and> open_q empty_db (initial_pq (JString '':memory:'') (Finite 2))
       = (Fulfilled [], [EvOpen], small_queue)
   \<and> disciplined False
        [Add ''a'', Add ''b'', Add ''c'', Start, Done None, Add ''d'', Done (Some 2), Done None,
         Done None] small_queue
   \<and> next_ids (events_of (run_ops
        [Add ''a'', Add ''b'', Add ''c'', Start, Done None, Add ''d'', Done (Some 2), Done None,
         Done None] small_queue)) = [1, 2, 3, 4]
   \<and> sorted_wrt (<) (next_ids (events_of (run_ops
        [Add ''a'', Add ''b'', Add ''c'', Start, Done None, Add ''d'', Done (Some 2), Done None,
         Done None] small_queue)))
   \<and> announces (Add ''e'') (after (run_ops
        [Add ''a'', Add ''b'', Add ''c'', Start, Done None, Add ''d'', Done (Some 2), Done None,
         Done None] small_queue))
   \<and> filter is_next (events_of (apply_op (Add ''e'') (after (run_ops
        [Add ''a'', Add ''b'', Add ''c'', Start, Done None, Add ''d'', Done (Some 2), Done None,
         Done None] small_queue)))) = [EvNext (Some (5, ''e''))]"
proof -
  let ?ops = "[Add ''a'', Add ''b'', Add ''c'', Start, Done None, Add ''d'', Done (Some 2),
    Done None, Done None]"
  have d: "run_ops ?ops small_queue
      = (fst (run_ops ?ops small_queue), events_of (run_ops ?ops small_queue),
         after (run_ops ?ops small_queue))"
    by (simp add: events_of_def after_def)
  have e: "next_ids (events_of (run_ops ?ops small_queue)) = [1, 2, 3, 4]"
    by (simp add: small_queue_eq run_defs)
  have g: "disciplined False ?ops small_queue"
    by (simp add: small_queue_eq run_defs)
  have h: "after (run_ops ?ops small_queue) =
     \<lparr>debug = False, empty_q = Some True, dbPath = JString '':memory:'', batchSize = Finite 2,
      queue = [], length_q = Some 0,
      db = Some \<lparr>rows = [], seq = 4, counter = 0, vacuums = 1\<rparr>,
      opened = True, run = True\<rparr>"
    by (simp add: small_queue_eq run_defs)
  have i: "announces (Add ''e'') (after (run_ops ?ops small_queue))"
    unfolding h by (simp add: run_defs)
  have j: "least_job (after (apply_op (Add ''e'') (after (run_ops ?ops small_queue))))
      = Some (5, ''e'')"
    unfolding h by (simp add: run_defs)
  note t = next_announcements [OF construct_small_queue wf_empty_db open_small_queue d]
  from t have "filter is_next (events_of (apply_op (Add ''e'') (after (run_ops ?ops small_queue))))
      = (if announces (Add ''e'') (after (run_ops ?ops small_queue))
         then [EvNext (least_job (after (apply_op (Add ''e'')
                (after (run_ops ?ops small_queue)))))] else [])"
    by blast
  with i j have k: "filter is_next (events_of (apply_op (Add ''e'')
      (after (run_ops ?ops small_queue)))) = [EvNext (Some (5, ''e''))]"
    by simp
  from t g have "sorted_wrt (<) (next_ids (events_of (run_ops ?ops small_queue)))" by blast
  with construct_small_queue wf_empty_db open_small_queue e g i k show ?thesis by blast
qed

section \<open>The emptiness flag\<close>




end
